theory Spec2Isabelle
  imports Complex_Main "HOL-Library.Word"
begin

section \<open>JavaScript values used by the engine\<close>

text \<open>
  A JavaScript \<^verbatim>\<open>number\<close>. Finite values are kept as exact rationals: rounding to
  IEEE doubles is not modelled, and \<^verbatim>\<open>-0\<close> is identified with \<^verbatim>\<open>0\<close> (both are
  falsy and compare equal).
\<close>

datatype number = NaN | Fin rat | PosInfinity | NegInfinity

text \<open>\<^verbatim>\<open>a > b\<close> on numbers: any comparison with \<^verbatim>\<open>NaN\<close> is false.\<close>

fun js_gt :: "number \<Rightarrow> number \<Rightarrow> bool" where
  "js_gt (Fin a) (Fin b) = (b < a)"
| "js_gt PosInfinity (Fin b) = True"
| "js_gt PosInfinity NegInfinity = True"
| "js_gt (Fin a) NegInfinity = True"
| "js_gt _ _ = False"

text \<open>Truthiness of a number: \<^verbatim>\<open>0\<close> and \<^verbatim>\<open>NaN\<close> are falsy.\<close>

fun truthy :: "number \<Rightarrow> bool" where
  "truthy NaN = False"
| "truthy (Fin r) = (r \<noteq> 0)"
| "truthy PosInfinity = True"
| "truthy NegInfinity = True"

text \<open>\<^verbatim>\<open>x || 0\<close> where \<^verbatim>\<open>x\<close> is a number or \<^verbatim>\<open>undefined\<close> (\<open>None\<close>).\<close>

fun or_zero :: "number option \<Rightarrow> number" where
  "or_zero None = Fin 0"
| "or_zero (Some n) = (if truthy n then n else Fin 0)"

section \<open>Data model (types/gene-visualization.ts)\<close>

datatype TaxonomicLevel = Phylum | Class | Order | Family | Genus

record GTDBRecord =
  assembly :: string
  phylum :: string
  class_lvl :: string
  order_lvl :: string
  family :: string
  genus :: string

text \<open>\<^verbatim>\<open>d[level]\<close> for a \<^verbatim>\<open>TaxonomicLevel\<close>.\<close>

fun level_of :: "GTDBRecord \<Rightarrow> TaxonomicLevel \<Rightarrow> string" where
  "level_of d Phylum = phylum d"
| "level_of d Class = class_lvl d"
| "level_of d Order = order_lvl d"
| "level_of d Family = family d"
| "level_of d Genus = genus d"

type_synonym GeneCountData = "string \<rightharpoonup> number"

datatype NormalizeLevel = Null | FlatAll | Level TaxonomicLevel

record VisualizationState =
  originalRaw :: "GTDBRecord list"
  raw :: "GTDBRecord list"
  assemblies :: "string list"
  selectedLevels :: "TaxonomicLevel list"
  totalInput :: nat
  geneNames :: "string list"
  matrix :: "8 word list option"
  asmCount :: nat
  countMap :: "string \<rightharpoonup> GeneCountData"
  asmIndex :: "string \<rightharpoonup> nat"
  geneIndex :: "string \<rightharpoonup> nat"
  coordMap :: "string \<rightharpoonup> rat"
  widthMap :: "string \<rightharpoonup> rat"
  normalizeLevel :: NormalizeLevel
  showPresence :: bool
  activeGenes :: "string list"
  isLoading :: bool
  loadingMessage :: string

record DifferenceOptions =
  gene1 :: string
  gene2 :: string
  useCounts :: bool

text \<open>Errors a modelled function can throw.\<close>

datatype js_error = TypeError | RangeError

section \<open>Presence toggle\<close>

text \<open>
  \<^verbatim>\<open>togglePresence\<close> of the hook: a state without matrix is returned as it is; otherwise
  a fresh \<^verbatim>\<open>Uint8Array\<close> of the same length receives \<^verbatim>\<open>prev.matrix[i] ? 0 : 1\<close>
  and \<^verbatim>\<open>showPresence\<close> is negated.
\<close>

definition flip_cell :: "8 word \<Rightarrow> 8 word" where
  "flip_cell v = (if v \<noteq> 0 then 0 else 1)"

definition togglePresence :: "VisualizationState \<Rightarrow> VisualizationState" where
  "togglePresence prev =
     (case matrix prev of
        None \<Rightarrow> prev
      | Some m \<Rightarrow> prev\<lparr>matrix := Some (map flip_cell m), showPresence := \<not> showPresence prev\<rparr>)"

text \<open>\<^verbatim>\<open>DataProcessor.togglePresenceMatrix\<close>: \<^verbatim>\<open>row.map(val => val ? 0 : 1)\<close> on every row.\<close>

definition flip_number :: "number \<Rightarrow> number" where
  "flip_number v = (if truthy v then Fin 0 else Fin 1)"

definition togglePresenceMatrix :: "number list list \<Rightarrow> number list list" where
  "togglePresenceMatrix m = map (\<lambda>row. map flip_number row) m"

text \<open>\<^verbatim>\<open>xs.indexOf(x)\<close>; \<open>None\<close> stands for \<open>-1\<close>.\<close>

fun index_of :: "'a list \<Rightarrow> 'a \<Rightarrow> nat option" where
  "index_of [] x = None"
| "index_of (y # ys) x = (if y = x then Some 0 else map_option Suc (index_of ys x))"

section \<open>Lineage runs\<close>

text \<open>
  A run \<^verbatim>\<open>{cat, start, end}\<close> with inclusive, 0-based bounds (the field \<^verbatim>\<open>end\<close> is
  called \<open>end_idx\<close> here). The type of the category is a parameter: a string in the hook
  and the canvas, a string or \<^verbatim>\<open>undefined\<close> in \<^verbatim>\<open>DataProcessor\<close>.
\<close>

record 'a LineageRun =
  cat :: 'a
  start :: nat
  end_idx :: nat

text \<open>
  The scan shared by the three run computations:
  \<^verbatim>\<open>for (k = 1; k < n; k++) { if (v[k] !== cat) { runs.push({cat, start, end: k - 1}); cat = v[k]; start = k } }\<close>
  followed by \<^verbatim>\<open>runs.push({cat, start, end: n - 1})\<close>. The list argument holds the
  values \<open>v[k], v[k + 1], ...\<close> still to be visited, \<open>k\<close> is the loop index, \<open>s\<close> and \<open>c\<close> are
  \<^verbatim>\<open>start\<close> and the current category, and \<open>n\<close> is the length of the assembly list.
\<close>

fun scan_runs :: "nat \<Rightarrow> 'a list \<Rightarrow> nat \<Rightarrow> nat \<Rightarrow> 'a \<Rightarrow> 'a LineageRun list" where
  "scan_runs n [] k s c = [\<lparr>cat = c, start = s, end_idx = n - 1\<rparr>]"
| "scan_runs n (v # vs) k s c =
     (if v \<noteq> c then \<lparr>cat = c, start = s, end_idx = k - 1\<rparr> # scan_runs n vs (Suc k) k v
      else scan_runs n vs (Suc k) s c)"

text \<open>
  The runs of one level in \<^verbatim>\<open>VisualizationCanvas\<close>. The effect returns before this point
  when \<^verbatim>\<open>data\<close> is empty, so that no run is computed then.
\<close>

definition canvas_runs :: "GTDBRecord list \<Rightarrow> TaxonomicLevel \<Rightarrow> string LineageRun list" where
  "canvas_runs data level =
     (case data of
        [] \<Rightarrow> []
      | d # ds \<Rightarrow> scan_runs (length data) (map (\<lambda>d. level_of d level) ds) 1 0 (level_of d level))"

text \<open>
  \<^verbatim>\<open>prev.raw[k]?.[level]\<close> of the hook: \<^verbatim>\<open>undefined\<close> (\<open>None\<close>) when \<open>k\<close> is outside
  the record list.
\<close>

definition raw_level :: "GTDBRecord list \<Rightarrow> nat \<Rightarrow> TaxonomicLevel \<Rightarrow> string option" where
  "raw_level rs k level = (if k < length rs then Some (level_of (rs ! k) level) else None)"

text \<open>
  \<^verbatim>\<open>x || ''\<close> for a string or \<^verbatim>\<open>undefined\<close>.
\<close>

fun or_empty :: "string option \<Rightarrow> string" where
  "or_empty None = []"
| "or_empty (Some s) = s"

text \<open>
  The scan of the hook's layout: as \<open>scan_runs\<close>, with the comparison
  \<^verbatim>\<open>prev.raw[k]?.[level] !== cat\<close> between a possibly undefined value and a string, and
  the new category \<^verbatim>\<open>prev.raw[k]?.[level] || ''\<close>.
\<close>

fun hook_scan :: "nat \<Rightarrow> string option list \<Rightarrow> nat \<Rightarrow> nat \<Rightarrow> string \<Rightarrow> string LineageRun list" where
  "hook_scan n [] k s c = [\<lparr>cat = c, start = s, end_idx = n - 1\<rparr>]"
| "hook_scan n (v # vs) k s c =
     (if v \<noteq> Some c then \<lparr>cat = c, start = s, end_idx = k - 1\<rparr> # hook_scan n vs (Suc k) k (or_empty v)
      else hook_scan n vs (Suc k) s c)"

text \<open>
  The runs of the by-level branch of the hook's layout; the loop runs over the indices
  of \<^verbatim>\<open>prev.assemblies\<close> and reads \<^verbatim>\<open>prev.raw\<close>.
\<close>

definition hook_runs :: "VisualizationState \<Rightarrow> TaxonomicLevel \<Rightarrow> string LineageRun list" where
  "hook_runs prev level =
     hook_scan (length (assemblies prev))
       (map (\<lambda>k. raw_level (raw prev) k level) [1..<length (assemblies prev)])
       1 0 (or_empty (raw_level (raw prev) 0 level))"

section \<open>Layout\<close>

text \<open>
  \<^verbatim>\<open>xs.slice(b, e)\<close> for indices that are not negative.
\<close>

definition slice_arr :: "'a list \<Rightarrow> nat \<Rightarrow> nat \<Rightarrow> 'a list" where
  "slice_arr xs b e = take (e - b) (drop b xs)"

text \<open>
  The pair \<^verbatim>\<open>{coordMap, widthMap}\<close>. Pixel values are exact rationals: rounding to
  doubles is not modelled.
\<close>

type_synonym CoordinateMap = "(string \<rightharpoonup> rat) \<times> (string \<rightharpoonup> rat)"

text \<open>
  The inner loop of the by-level branch,
  \<^verbatim>\<open>arr.forEach((a, idx) => { coordMap.set(a, ri * segW + idx * w); widthMap.set(a, w) })\<close>,
  with \<open>x0 = ri * segW\<close>.
\<close>

fun place_members :: "rat \<Rightarrow> rat \<Rightarrow> string list \<Rightarrow> nat \<Rightarrow> CoordinateMap \<Rightarrow> CoordinateMap" where
  "place_members x0 w [] idx m = m"
| "place_members x0 w (a # arr) idx m =
     place_members x0 w arr (Suc idx) ((fst m)(a \<mapsto> x0 + of_nat idx * w), (snd m)(a \<mapsto> w))"

text \<open>
  \<^verbatim>\<open>runs.forEach((run, ri) => ...)\<close>: the members of a run are
  \<^verbatim>\<open>assemblies.slice(run.start, run.end + 1)\<close> and each gets \<^verbatim>\<open>segW / arr.length\<close>.
\<close>

fun place_runs :: "string list \<Rightarrow> rat \<Rightarrow> 'a LineageRun list \<Rightarrow> nat \<Rightarrow> CoordinateMap \<Rightarrow> CoordinateMap" where
  "place_runs asms segW [] ri m = m"
| "place_runs asms segW (run # runs) ri m =
     (let arr = slice_arr asms (start run) (end_idx run + 1);
          w = segW / of_nat (length arr)
      in place_runs asms segW runs (Suc ri) (place_members (of_nat ri * segW) w arr 0 m))"

text \<open>
  The band scale of d3 (\<^verbatim>\<open>d3.scaleBand().domain(names).range([0, totalW]).paddingInner(0)\<close>),
  a library outside the repository, modelled after its \<^verbatim>\<open>rescale\<close>: the domain keeps
  the first occurrence of every name; with \<open>n\<close> names the step and the bandwidth are
  \<open>|totalW| / max 1 n\<close>; the band of the name at position \<open>i\<close> starts at \<open>step * i\<close>, and
  for a negative \<open>totalW\<close> the range is reversed.
\<close>

fun intern :: "string list \<Rightarrow> string list \<Rightarrow> string list" where
  "intern seen [] = seen"
| "intern seen (a # as) = (if a \<in> set seen then intern seen as else intern (seen @ [a]) as)"

definition bandwidth :: "string list \<Rightarrow> rat \<Rightarrow> rat" where
  "bandwidth names totalW = \<bar>totalW\<bar> / of_nat (max 1 (length (intern [] names)))"

definition scaleBand :: "string list \<Rightarrow> rat \<Rightarrow> string \<Rightarrow> rat option" where
  "scaleBand names totalW a =
     (let dom = intern [] names; n = length dom; step = bandwidth names totalW
      in map_option
           (\<lambda>i. if totalW < 0 then totalW + step * of_nat (n - 1 - i) else step * of_nat i)
           (index_of dom a))"

text \<open>
  \<^verbatim>\<open>xBand(a) || 0\<close> in \<^verbatim>\<open>DataProcessor\<close>, and \<^verbatim>\<open>xBand(a)!\<close> in the hook, where
  the value is defined because every assembly placed is in the domain.
\<close>

fun rat_or_zero :: "rat option \<Rightarrow> rat" where
  "rat_or_zero None = 0"
| "rat_or_zero (Some x) = x"

text \<open>
  \<^verbatim>\<open>assemblies.forEach(a => { coordMap.set(a, xBand(a)); widthMap.set(a, xBand.bandwidth()) })\<close>.
\<close>

fun place_bands :: "(string \<Rightarrow> rat option) \<Rightarrow> rat \<Rightarrow> string list \<Rightarrow> CoordinateMap \<Rightarrow> CoordinateMap" where
  "place_bands xBand bw [] m = m"
| "place_bands xBand bw (a # as) m =
     place_bands xBand bw as ((fst m)(a \<mapsto> rat_or_zero (xBand a)), (snd m)(a \<mapsto> bw))"

text \<open>
  \<^verbatim>\<open>assemblies.forEach((a, i) => { coordMap.set(a, i * w); widthMap.set(a, w) })\<close>.
\<close>

fun place_equal :: "rat \<Rightarrow> string list \<Rightarrow> nat \<Rightarrow> CoordinateMap \<Rightarrow> CoordinateMap" where
  "place_equal w [] i m = m"
| "place_equal w (a # as) i m =
     place_equal w as (Suc i) ((fst m)(a \<mapsto> of_nat i * w), (snd m)(a \<mapsto> w))"

text \<open>
  The state update inside the layout effect of the hook (the logging calls are left
  out). An empty assembly list returns the previous state, maps included. A division
  whose divisor is 0 yields \<^verbatim>\<open>Infinity\<close> or \<^verbatim>\<open>NaN\<close> in JavaScript without raising;
  here the divisors are lengths of non-empty lists.
\<close>

definition layout_update :: "rat \<Rightarrow> VisualizationState \<Rightarrow> VisualizationState" where
  "layout_update containerWidth prev =
     (if length (assemblies prev) = 0 then prev
      else
        let totalW = containerWidth - 140 - 20;
            maps =
              (case normalizeLevel prev of
                 Null \<Rightarrow>
                   place_bands (scaleBand (assemblies prev) totalW)
                     (bandwidth (assemblies prev) totalW) (assemblies prev) (Map.empty, Map.empty)
               | FlatAll \<Rightarrow>
                   (let w = totalW / of_nat (length (assemblies prev))
                    in place_equal w (assemblies prev) 0 (Map.empty, Map.empty))
               | Level level \<Rightarrow>
                   (let runs = hook_runs prev level;
                        segW = totalW / of_nat (length runs)
                    in place_runs (assemblies prev) segW runs 0 (Map.empty, Map.empty)))
        in prev\<lparr>coordMap := fst maps, widthMap := snd maps\<rparr>)"

text \<open>
  The effect runs the update only for a non-empty assembly list and a positive
  container width.
\<close>

definition layout_effect :: "rat \<Rightarrow> VisualizationState \<Rightarrow> VisualizationState" where
  "layout_effect containerWidth st =
     (if length (assemblies st) > 0 \<and> containerWidth > 0 then layout_update containerWidth st
      else st)"

text \<open>
  \<^verbatim>\<open>assembly[key]\<close> for an arbitrary string key: the own fields of a record, and
  \<^verbatim>\<open>undefined\<close> for any other key (properties inherited from \<^verbatim>\<open>Object.prototype\<close> are
  not modelled).
\<close>

fun property :: "GTDBRecord \<Rightarrow> string \<Rightarrow> string option" where
  "property d key =
     (if key = ''assembly'' then Some (assembly d)
      else if key = ''phylum'' then Some (phylum d)
      else if key = ''class'' then Some (class_lvl d)
      else if key = ''order'' then Some (order_lvl d)
      else if key = ''family'' then Some (family d)
      else if key = ''genus'' then Some (genus d)
      else None)"

text \<open>
  The runs of \<^verbatim>\<open>DataProcessor.buildLayout\<close> for a non-empty list \<open>a0 # rest\<close>.
\<close>

definition property_runs :: "GTDBRecord \<Rightarrow> GTDBRecord list \<Rightarrow> string \<Rightarrow> string option LineageRun list" where
  "property_runs a0 rest key =
     scan_runs (length (a0 # rest)) (map (\<lambda>a. property a key) rest) 1 0 (property a0 key)"

text \<open>
  \<^verbatim>\<open>DataProcessor.buildLayout\<close>. The by-level branch starts with
  \<^verbatim>\<open>assemblies[0][normalizeLevel]\<close>, which throws a \<^verbatim>\<open>TypeError\<close> on an empty list.
  In the \<^verbatim>\<open>__ALL__\<close> branch \<^verbatim>\<open>totalWidth / assemblies.length\<close> is \<^verbatim>\<open>Infinity\<close> for an
  empty list and is then never stored (the value of the model's division by 0 is not
  used either). The maps are keyed by \<^verbatim>\<open>assembly.assembly\<close>, so the loops are run over
  the names.
\<close>

definition buildLayout :: "GTDBRecord list \<Rightarrow> string option \<Rightarrow> js_error + CoordinateMap" where
  "buildLayout asms normLevel =
     (let totalWidth = 1500 - 120 - 16;
          names = map assembly asms;
          bands = place_bands (scaleBand names totalWidth) (bandwidth names totalWidth) names
                    (Map.empty, Map.empty)
      in case normLevel of
           None \<Rightarrow> Inr bands
         | Some key \<Rightarrow>
             if key = [] then Inr bands
             else if key = ''__ALL__''
             then (let width = totalWidth / of_nat (length asms)
                   in Inr (place_equal width names 0 (Map.empty, Map.empty)))
             else
               (case asms of
                  [] \<Rightarrow> Inl TypeError
                | a0 # rest \<Rightarrow>
                    (let runs = property_runs a0 rest key;
                         segmentWidth = totalWidth / of_nat (length runs)
                     in Inr (place_runs names segmentWidth runs 0 (Map.empty, Map.empty)))))"

section \<open>State set-up of the hook\<close>

text \<open>The initial value given to \<^verbatim>\<open>useState\<close>.\<close>

definition initial_state :: VisualizationState where
  "initial_state =
     \<lparr>originalRaw = [], raw = [], assemblies = [], selectedLevels = [Phylum], totalInput = 0,
      geneNames = [], matrix = None, asmCount = 0, countMap = Map.empty, asmIndex = Map.empty,
      geneIndex = Map.empty, coordMap = Map.empty, widthMap = Map.empty, normalizeLevel = Null,
      showPresence = True, activeGenes = [], isLoading = False, loadingMessage = []\<rparr>"

text \<open>\<^verbatim>\<open>new Map(entries)\<close>: entries are inserted in order, a later key replaces an earlier one.\<close>

fun from_entries :: "('k \<times> 'v) list \<Rightarrow> ('k \<rightharpoonup> 'v) \<Rightarrow> ('k \<rightharpoonup> 'v)" where
  "from_entries [] m = m"
| "from_entries ((k, v) # es) m = from_entries es (m(k \<mapsto> v))"

text \<open>\<^verbatim>\<open>new Map(names.map((n, i) => [n, i]))\<close>.\<close>

definition index_map :: "string list \<Rightarrow> string \<rightharpoonup> nat" where
  "index_map names = from_entries (zip names [0..<length names]) Map.empty"

text \<open>
  \<^verbatim>\<open>loadGTDBData\<close> after the JSON document has been fetched and parsed into
  \<^verbatim>\<open>jsonData\<close> (fetching and its failure branch are outside the model).
\<close>

definition loadGTDBData :: "GTDBRecord list \<Rightarrow> VisualizationState \<Rightarrow> VisualizationState" where
  "loadGTDBData jsonData prev =
     prev\<lparr>originalRaw := jsonData, raw := jsonData, assemblies := map assembly jsonData,
          asmCount := length jsonData, asmIndex := index_map (map assembly jsonData)\<rparr>"

definition setNormalizeLevel :: "NormalizeLevel \<Rightarrow> VisualizationState \<Rightarrow> VisualizationState" where
  "setNormalizeLevel level prev = prev\<lparr>normalizeLevel := level\<rparr>"

section \<open>Strings and string-to-number conversion\<close>

text \<open>
  Strings are byte lists. The white space removed by \<^verbatim>\<open>trim\<close> and skipped by the numeric
  conversions is the ASCII part of JavaScript's white space and line terminators (tab,
  line feed, vertical tab, form feed, carriage return, space); the non-ASCII white space
  characters are not modelled.
\<close>

definition is_space :: "char \<Rightarrow> bool" where
  "is_space c \<longleftrightarrow> c \<in> {CHR 0x09, CHR 0x0A, CHR 0x0B, CHR 0x0C, CHR 0x0D, CHR 0x20}"

definition trim :: "string \<Rightarrow> string" where
  "trim s = rev (dropWhile is_space (rev (dropWhile is_space s)))"

text \<open>\<^verbatim>\<open>s.endsWith(suffix)\<close>.\<close>

definition endsWith :: "string \<Rightarrow> string \<Rightarrow> bool" where
  "endsWith s suffix \<longleftrightarrow>
     length suffix \<le> length s \<and> drop (length s - length suffix) s = suffix"

text \<open>Puts a character in front of the first piece of a split.\<close>

fun cons_first :: "char \<Rightarrow> string list \<Rightarrow> string list" where
  "cons_first c [] = [[c]]"
| "cons_first c (w # ws) = (c # w) # ws"

text \<open>\<^verbatim>\<open>s.split(sep)\<close> for a one-character separator; the result is never empty.\<close>

fun split_on :: "char \<Rightarrow> string \<Rightarrow> string list" where
  "split_on sep [] = [[]]"
| "split_on sep (c # cs) =
     (if c = sep then [] # split_on sep cs else cons_first c (split_on sep cs))"

text \<open>\<^verbatim>\<open>s.split(/\r?\n/)\<close>: a line ends at a line feed or at a carriage return followed by one.\<close>

fun split_lines :: "string \<Rightarrow> string list" where
  "split_lines [] = [[]]"
| "split_lines [c] = (if c = CHR 0x0A then [[], []] else [[c]])"
| "split_lines (c # d # cs) =
     (if c = CHR 0x0A then [] # split_lines (d # cs)
      else if c = CHR 0x0D \<and> d = CHR 0x0A then [] # split_lines cs
      else cons_first c (split_lines (d # cs)))"

text \<open>\<^verbatim>\<open>xs[i]\<close> for an index that may be out of range (\<open>None\<close> is \<^verbatim>\<open>undefined\<close>).\<close>

definition nth_opt :: "'a list \<Rightarrow> nat \<Rightarrow> 'a option" where
  "nth_opt xs i = (if i < length xs then Some (xs ! i) else None)"

text \<open>\<^verbatim>\<open>xs[xs2.indexOf(x)]\<close>: \<open>None\<close> as index stands for \<open>-1\<close>, which reads \<^verbatim>\<open>undefined\<close>.\<close>

fun at_index :: "'a list \<Rightarrow> nat option \<Rightarrow> 'a option" where
  "at_index xs None = None"
| "at_index xs (Some i) = nth_opt xs i"

definition is_digit :: "char \<Rightarrow> bool" where
  "is_digit c \<longleftrightarrow> (48::nat) \<le> of_char c \<and> of_char c \<le> (57::nat)"

text \<open>The value of a digit in a base up to 16 (\<open>None\<close> when the character is no such digit).\<close>

definition digit_in :: "nat \<Rightarrow> char \<Rightarrow> nat option" where
  "digit_in base c =
     (let n = (of_char c :: nat);
          v = (if 48 \<le> n \<and> n \<le> 57 then Some (n - 48)
               else if 97 \<le> n \<and> n \<le> 102 then Some (n - 87)
               else if 65 \<le> n \<and> n \<le> 70 then Some (n - 55)
               else None)
      in case v of None \<Rightarrow> None | Some d \<Rightarrow> if d < base then Some d else None)"

text \<open>Reads a string of digits of the base; \<open>None\<close> when it is empty or holds another character.\<close>

fun digits_from :: "nat \<Rightarrow> nat \<Rightarrow> string \<Rightarrow> nat option" where
  "digits_from base acc [] = Some acc"
| "digits_from base acc (c # cs) =
     (case digit_in base c of
        None \<Rightarrow> None
      | Some d \<Rightarrow> digits_from base (base * acc + d) cs)"

definition digits_value :: "nat \<Rightarrow> string \<Rightarrow> nat option" where
  "digits_value base s = (if s = [] then None else digits_from base 0 s)"

text \<open>The value of a string of decimal digits, with the empty string read as 0.\<close>

definition decimal_value :: "string \<Rightarrow> nat" where
  "decimal_value s = foldl (\<lambda>acc c. 10 * acc + (of_char c - 48)) 0 s"

text \<open>
  The exponent part of a decimal literal: nothing, or \<^verbatim>\<open>e\<close>/\<^verbatim>\<open>E\<close>, an optional sign
  and at least one digit. \<open>None\<close> when the text is neither.
\<close>

definition exponent_part :: "string \<Rightarrow> int option" where
  "exponent_part s =
     (case s of
        [] \<Rightarrow> Some 0
      | c # t \<Rightarrow>
          if c = CHR ''e'' \<or> c = CHR ''E'' then
            (case t of
               [] \<Rightarrow> None
             | d # u \<Rightarrow>
                 if d = CHR ''-'' then map_option (\<lambda>n. - int n) (digits_value 10 u)
                 else if d = CHR ''+'' then map_option int (digits_value 10 u)
                 else map_option int (digits_value 10 t))
          else None)"

text \<open>
  An unsigned decimal literal of the \<^verbatim>\<open>StringToNumber\<close> grammar: \<^verbatim>\<open>Infinity\<close>, or digits
  with an optional fraction and exponent, with at least one digit before or after the dot.
\<close>

definition unsigned_decimal :: "string \<Rightarrow> number" where
  "unsigned_decimal s =
     (if s = ''Infinity'' then PosInfinity
      else
        let ip = takeWhile is_digit s;
            r1 = dropWhile is_digit s;
            fp = (case r1 of [] \<Rightarrow> [] | c # t \<Rightarrow> if c = CHR ''.'' then takeWhile is_digit t else []);
            r2 = (case r1 of [] \<Rightarrow> [] | c # t \<Rightarrow> if c = CHR ''.'' then dropWhile is_digit t else r1)
        in if ip = [] \<and> fp = [] then NaN
           else
             (case exponent_part r2 of
                None \<Rightarrow> NaN
              | Some e \<Rightarrow>
                  let mant = of_nat (decimal_value ip) + of_nat (decimal_value fp) / 10 ^ length fp
                  in Fin (if 0 \<le> e then mant * 10 ^ nat e else mant / 10 ^ nat (- e))))"

fun negate :: "number \<Rightarrow> number" where
  "negate NaN = NaN"
| "negate (Fin r) = Fin (- r)"
| "negate PosInfinity = NegInfinity"
| "negate NegInfinity = PosInfinity"

text \<open>
  \<^verbatim>\<open>Number(s)\<close>, which is what unary \<^verbatim>\<open>+s\<close> computes on a string: white space is trimmed,
  the empty string is 0, then a hexadecimal, octal or binary literal without sign, or a
  signed decimal literal; anything else is \<^verbatim>\<open>NaN\<close>.
\<close>

definition string_to_number :: "string \<Rightarrow> number" where
  "string_to_number s =
     (let t = trim s
      in case t of
           [] \<Rightarrow> Fin 0
         | c # u \<Rightarrow>
             if c = CHR ''0'' \<and> u \<noteq> [] \<and> (hd u = CHR ''x'' \<or> hd u = CHR ''X'')
             then (case digits_value 16 (tl u) of None \<Rightarrow> NaN | Some n \<Rightarrow> Fin (of_nat n))
             else if c = CHR ''0'' \<and> u \<noteq> [] \<and> (hd u = CHR ''o'' \<or> hd u = CHR ''O'')
             then (case digits_value 8 (tl u) of None \<Rightarrow> NaN | Some n \<Rightarrow> Fin (of_nat n))
             else if c = CHR ''0'' \<and> u \<noteq> [] \<and> (hd u = CHR ''b'' \<or> hd u = CHR ''B'')
             then (case digits_value 2 (tl u) of None \<Rightarrow> NaN | Some n \<Rightarrow> Fin (of_nat n))
             else if c = CHR ''-'' then negate (unsigned_decimal u)
             else if c = CHR ''+'' then unsigned_decimal u
             else unsigned_decimal t)"

text \<open>Unary plus on a string or \<^verbatim>\<open>undefined\<close>: \<^verbatim>\<open>+undefined\<close> is \<^verbatim>\<open>NaN\<close>.\<close>

fun to_number :: "string option \<Rightarrow> number" where
  "to_number None = NaN"
| "to_number (Some s) = string_to_number s"

text \<open>
  \<^verbatim>\<open>parseInt(s, 10)\<close>: leading white space and a sign are skipped, then the longest run of
  decimal digits is read; \<^verbatim>\<open>NaN\<close> when there is no digit.
\<close>

definition parseInt :: "string \<Rightarrow> number" where
  "parseInt s =
     (let t = dropWhile is_space s;
          neg = (t \<noteq> [] \<and> hd t = CHR ''-'');
          u = (if t \<noteq> [] \<and> (hd t = CHR ''-'' \<or> hd t = CHR ''+'') then tl t else t);
          ds = takeWhile is_digit u
      in if ds = [] then NaN
         else Fin (if neg then - of_nat (decimal_value ds) else of_nat (decimal_value ds)))"

section \<open>Loading the gene-count table\<close>

subsection \<open>\<^verbatim>\<open>loadTSVData\<close> of the hook\<close>

text \<open>
  \<^verbatim>\<open>tsvText.trim().split(/\r?\n/)\<close>, then \<^verbatim>\<open>lines.shift()?.split('\t') || []\<close> for the
  header (the split always has a first line, whose split is a non-empty array) and
  \<^verbatim>\<open>lines.filter(Boolean)\<close> for the data rows.
\<close>

definition tsv_lines :: "string \<Rightarrow> string list" where
  "tsv_lines tsvText = split_lines (trim tsvText)"

definition tsv_header :: "string \<Rightarrow> string list" where
  "tsv_header tsvText =
     (case tsv_lines tsvText of [] \<Rightarrow> [] | first # rest \<Rightarrow> split_on (CHR 0x09) first)"

definition tsv_rows :: "string \<Rightarrow> string list" where
  "tsv_rows tsvText = filter (\<lambda>l. l \<noteq> []) (tl (tsv_lines tsvText))"

text \<open>\<^verbatim>\<open>+row[header.indexOf(g)] || 0\<close>: the count of gene \<^verbatim>\<open>g\<close> in a split row.\<close>

definition row_count :: "string list \<Rightarrow> string list \<Rightarrow> string \<Rightarrow> number" where
  "row_count header row g = or_zero (Some (to_number (at_index row (index_of header g))))"

text \<open>
  The inner \<^verbatim>\<open>geneNames.forEach((g, gi) => ...)\<close> for one row: the count is stored in
  the row's count record, and the matrix cell \<^verbatim>\<open>gi * asmCount + ai\<close> is set to 1 when
  the count is greater than 0. A write outside a \<^verbatim>\<open>Uint8Array\<close> is ignored, as
  \<open>list_update\<close> does.
\<close>

fun load_genes ::
  "string list \<Rightarrow> string list \<Rightarrow> nat \<Rightarrow> nat \<Rightarrow> string list \<Rightarrow> nat \<Rightarrow>
   GeneCountData \<times> 8 word list \<Rightarrow> GeneCountData \<times> 8 word list" where
  "load_genes header row n ai [] gi acc = acc"
| "load_genes header row n ai (g # gs) gi acc =
     (let cnt = row_count header row g
      in load_genes header row n ai gs (Suc gi)
           ((fst acc)(g \<mapsto> cnt),
            if js_gt cnt (Fin 0) then (snd acc)[gi * n + ai := 1] else snd acc))"

text \<open>
  The outer \<^verbatim>\<open>rows.forEach\<close>: a row whose first field is no key of \<^verbatim>\<open>asmIndex\<close> is
  left at once; otherwise its count record replaces the entry of the assembly.
\<close>

fun load_rows ::
  "VisualizationState \<Rightarrow> string list \<Rightarrow> string list \<Rightarrow> string list \<Rightarrow>
   8 word list \<times> (string \<rightharpoonup> GeneCountData) \<Rightarrow> 8 word list \<times> (string \<rightharpoonup> GeneCountData)" where
  "load_rows prev header genes [] acc = acc"
| "load_rows prev header genes (rowStr # rest) acc =
     (let row = split_on (CHR 0x09) rowStr
      in case nth_opt row 0 of
           None \<Rightarrow> load_rows prev header genes rest acc
         | Some asm \<Rightarrow>
             (case asmIndex prev asm of
                None \<Rightarrow> load_rows prev header genes rest acc
              | Some ai \<Rightarrow>
                  (let r = load_genes header row (asmCount prev) ai genes 0 (Map.empty, fst acc)
                   in load_rows prev header genes rest (snd r, (snd acc)(asm \<mapsto> fst r)))))"

text \<open>
  The deferred state update of \<^verbatim>\<open>loadTSVData\<close> once header and rows are split off
  (the update before it only raises the loading flag, which this one lowers again).
\<close>

definition load_parsed ::
  "string list \<Rightarrow> string list \<Rightarrow> VisualizationState \<Rightarrow> VisualizationState" where
  "load_parsed header rows prev =
     (let genes = filter (\<lambda>h. endsWith h ''_count'') header;
          r = load_rows prev header genes rows
                (replicate (length genes * asmCount prev) 0, Map.empty)
      in prev\<lparr>totalInput := length rows, geneNames := genes, matrix := Some (fst r),
              geneIndex := index_map genes, countMap := snd r,
              isLoading := False, loadingMessage := []\<rparr>)"

definition loadTSVData :: "string \<Rightarrow> VisualizationState \<Rightarrow> VisualizationState" where
  "loadTSVData tsvText prev = load_parsed (tsv_header tsvText) (tsv_rows tsvText) prev"

subsection \<open>\<^verbatim>\<open>DataProcessor.processTsvData\<close>\<close>

type_synonym GeneData = "string \<rightharpoonup> number"

record ProcessedData =
  pd_assemblies :: "GTDBRecord list"
  pd_geneNames :: "string list"
  pd_matrix :: "number list list"
  pd_countMap :: "string \<rightharpoonup> GeneData"
  pd_asmIndex :: "string \<rightharpoonup> nat"
  pd_geneIndex :: "string \<rightharpoonup> nat"

text \<open>\<^verbatim>\<open>tsvContent.trim().split('\n')\<close> and \<^verbatim>\<open>lines[0].split('\t')\<close>.\<close>

definition processor_lines :: "string \<Rightarrow> string list" where
  "processor_lines tsvContent = split_on (CHR 0x0A) (trim tsvContent)"

definition processor_headers :: "string \<Rightarrow> string list" where
  "processor_headers tsvContent =
     (case processor_lines tsvContent of [] \<Rightarrow> [] | first # rest \<Rightarrow> split_on (CHR 0x09) first)"

text \<open>
  The loop over the fields \<^verbatim>\<open>parts[j]\<close>, \<^verbatim>\<open>j \<ge> 1\<close>, of one row: the key is
  \<^verbatim>\<open>headers[j]\<close> (the property name \<^verbatim>\<open>undefined\<close> when the row is longer than the
  header) and the value \<^verbatim>\<open>parseInt(parts[j] || '0', 10)\<close>, stored as it is.
\<close>

fun row_counts :: "string list \<Rightarrow> string list \<Rightarrow> nat \<Rightarrow> GeneData \<Rightarrow> GeneData" where
  "row_counts headers [] j geneData = geneData"
| "row_counts headers (p # ps) j geneData =
     (let geneName = (case nth_opt headers j of None \<Rightarrow> ''undefined'' | Some h \<Rightarrow> h);
          count = parseInt (if p = [] then ''0'' else p)
      in row_counts headers ps (Suc j) (geneData(geneName \<mapsto> count)))"

text \<open>
  The loop over the data lines; a row with an empty first field is skipped. The state is
  the count map, the assembly index and \<^verbatim>\<open>validAssemblies\<close>.
\<close>

fun process_rows ::
  "string list \<Rightarrow> string list \<Rightarrow> (string \<rightharpoonup> GeneData) \<times> (string \<rightharpoonup> nat) \<times> nat \<Rightarrow>
   (string \<rightharpoonup> GeneData) \<times> (string \<rightharpoonup> nat) \<times> nat" where
  "process_rows headers [] acc = acc"
| "process_rows headers (line # rest) (cmap, aidx, validAssemblies) =
     (case split_on (CHR 0x09) line of
        [] \<Rightarrow> process_rows headers rest (cmap, aidx, validAssemblies)
      | asm # parts \<Rightarrow>
          if asm \<noteq> []
          then process_rows headers rest
                 (cmap(asm \<mapsto> row_counts headers parts 1 Map.empty),
                  aidx(asm \<mapsto> validAssemblies), Suc validAssemblies)
          else process_rows headers rest (cmap, aidx, validAssemblies))"

text \<open>One matrix row: \<^verbatim>\<open>(geneData?.[geneName] || 0) > 0 ? 1 : 0\<close> for every kept assembly.\<close>

definition presence_row :: "(string \<rightharpoonup> GeneData) \<Rightarrow> GTDBRecord list \<Rightarrow> string \<Rightarrow> number list" where
  "presence_row cmap asms geneName =
     map (\<lambda>a. let count = or_zero (case cmap (assembly a) of None \<Rightarrow> None | Some gd \<Rightarrow> gd geneName)
              in if js_gt count (Fin 0) then Fin 1 else Fin 0) asms"

text \<open>\<^verbatim>\<open>processTsvData\<close>; the first argument is the field \<^verbatim>\<open>this.originalData\<close>.\<close>

definition processTsvData :: "GTDBRecord list \<Rightarrow> string \<Rightarrow> ProcessedData" where
  "processTsvData originalData tsvContent =
     (let headers = processor_headers tsvContent;
          genes = drop 1 headers;
          r = process_rows headers (tl (processor_lines tsvContent)) (Map.empty, Map.empty, 0);
          filteredAssemblies = filter (\<lambda>a. fst r (assembly a) \<noteq> None) originalData
      in \<lparr>pd_assemblies = filteredAssemblies, pd_geneNames = genes,
          pd_matrix = map (presence_row (fst r) filteredAssemblies) genes,
          pd_countMap = fst r, pd_asmIndex = fst (snd r), pd_geneIndex = index_map genes\<rparr>)"

section \<open>Difference-gene synthesis\<close>

text \<open>\<^verbatim>\<open>a.replace(/_count$/, '')\<close>.\<close>

definition strip_count :: "string \<Rightarrow> string" where
  "strip_count a = (if endsWith a ''_count'' then take (length a - 6) a else a)"

text \<open>The local function \<^verbatim>\<open>label\<close>.\<close>

definition label :: "bool \<Rightarrow> string \<Rightarrow> string \<Rightarrow> string" where
  "label uc a b = strip_count a @ (if uc then ''>'' else ''-'') @ strip_count b"

definition presence_bit :: "bool \<Rightarrow> 8 word" where
  "presence_bit p = (if p then 1 else 0)"

definition presence_count :: "bool \<Rightarrow> number" where
  "presence_count p = (if p then Fin 1 else Fin 0)"

text \<open>
  \<^verbatim>\<open>prev.assemblies.forEach\<close> of the synthesis: an assembly without ordinal is skipped;
  otherwise the two new cells are written and the two new names are added to the
  assembly's count record (a fresh record when it had none).
\<close>

fun diff_assemblies ::
  "VisualizationState \<Rightarrow> DifferenceOptions \<Rightarrow> string \<Rightarrow> string \<Rightarrow> nat \<Rightarrow> string list \<Rightarrow>
   8 word list \<times> (string \<rightharpoonup> GeneCountData) \<Rightarrow> 8 word list \<times> (string \<rightharpoonup> GeneCountData)" where
  "diff_assemblies prev options name1 name2 oldN [] acc = acc"
| "diff_assemblies prev options name1 name2 oldN (a # as) acc =
     (case asmIndex prev a of
        None \<Rightarrow> diff_assemblies prev options name1 name2 oldN as acc
      | Some ai \<Rightarrow>
          (let cm = (case snd acc a of None \<Rightarrow> Map.empty | Some cm \<Rightarrow> cm);
               c1 = or_zero (cm (gene1 options));
               c2 = or_zero (cm (gene2 options));
               p1 = (if useCounts options then js_gt c1 c2 else js_gt c1 (Fin 0) \<and> c2 = Fin 0);
               p2 = (if useCounts options then js_gt c2 c1 else js_gt c2 (Fin 0) \<and> c1 = Fin 0);
               m1 = (fst acc)[oldN * asmCount prev + ai := presence_bit p1];
               m2 = m1[(oldN + 1) * asmCount prev + ai := presence_bit p2];
               cm' = cm(name1 \<mapsto> presence_count p1, name2 \<mapsto> presence_count p2)
           in diff_assemblies prev options name1 name2 oldN as (m2, (snd acc)(a \<mapsto> cm'))))"

text \<open>
  The deferred state update of \<^verbatim>\<open>addDifferenceVisualization\<close>.
  \<^verbatim>\<open>newMatrix.set(prev.matrix || new Uint8Array(0))\<close> copies the old cells to the front
  of the zero-filled new array and throws a \<^verbatim>\<open>RangeError\<close> when the old array is the
  longer one.
\<close>

definition addDifferenceVisualization ::
  "DifferenceOptions \<Rightarrow> VisualizationState \<Rightarrow> js_error + VisualizationState" where
  "addDifferenceVisualization options prev =
     (if gene1 options = [] \<or> gene2 options = [] \<or> gene1 options = gene2 options
      then Inr (prev\<lparr>isLoading := False, loadingMessage := []\<rparr>)
      else
        let oldN = length (geneNames prev);
            name1 = label (useCounts options) (gene1 options) (gene2 options);
            name2 = label (useCounts options) (gene2 options) (gene1 options);
            newGeneNames = geneNames prev @ [name1, name2];
            newGeneIndex = (geneIndex prev)(name1 \<mapsto> oldN, name2 \<mapsto> oldN + 1);
            newLength = length newGeneNames * asmCount prev;
            old = (case matrix prev of None \<Rightarrow> [] | Some m \<Rightarrow> m)
        in if newLength < length old then Inl RangeError
           else
             let r = diff_assemblies prev options name1 name2 oldN (assemblies prev)
                       (old @ replicate (newLength - length old) 0, countMap prev)
             in Inr (prev\<lparr>geneNames := newGeneNames, geneIndex := newGeneIndex,
                         matrix := Some (fst r), countMap := snd r,
                         activeGenes := activeGenes prev @ [name1, name2],
                         isLoading := False, loadingMessage := []\<rparr>))"

section \<open>Notions used to state the properties\<close>

text \<open>
  The runs \<open>rs\<close> tile the index range from \<open>s\<close> up to, but not including, \<open>n\<close>: each run
  starts where its predecessor ended and is not empty.
\<close>

fun tiles :: "nat \<Rightarrow> nat \<Rightarrow> 'a LineageRun list \<Rightarrow> bool" where
  "tiles s n [] = (s = n)"
| "tiles s n (r # rs) = (start r = s \<and> s \<le> end_idx r \<and> tiles (Suc (end_idx r)) n rs)"

text \<open>Adjacent runs carry different categories.\<close>

fun alternating :: "'a LineageRun list \<Rightarrow> bool" where
  "alternating (r # r' # rs) = (cat r \<noteq> cat r' \<and> alternating (r' # rs))"
| "alternating _ = True"

text \<open>
  The runs \<open>rs\<close> partition the indices of the value sequence \<open>ws\<close> into maximal blocks,
  written out on indices: the first run starts at 0, the last one ends at the last index,
  no run is empty, every index of a run holds the run's category, each run starts right
  after its predecessor ends, and adjacent runs differ in category.
\<close>

definition run_partition :: "'a list \<Rightarrow> 'a LineageRun list \<Rightarrow> bool" where
  "run_partition ws rs \<longleftrightarrow>
     rs \<noteq> [] \<and> start (hd rs) = 0 \<and> end_idx (last rs) = length ws - 1 \<and>
     (\<forall>r \<in> set rs. start r \<le> end_idx r \<and>
        (\<forall>j. start r \<le> j \<and> j \<le> end_idx r \<longrightarrow> ws ! j = cat r)) \<and>
     (\<forall>i. Suc i < length rs \<longrightarrow>
        start (rs ! Suc i) = Suc (end_idx (rs ! i)) \<and> cat (rs ! Suc i) \<noteq> cat (rs ! i))"



text \<open>A data row whose first field is a key of the assembly index of the state.\<close>

definition row_known :: "VisualizationState \<Rightarrow> string \<Rightarrow> bool" where
  "row_known st rowStr =
     (case nth_opt (split_on (CHR 0x09) rowStr) 0 of
        None \<Rightarrow> False
      | Some asm \<Rightarrow> asmIndex st asm \<noteq> None)"

text \<open>
  The two sides of the matrix/count-map agreement: the cell \<^verbatim>\<open>matrix[i]\<close> holds 1
  (a read outside the array, or of a missing matrix, does not), and the count map has an
  entry for the assembly whose count for the gene is greater than 0.
\<close>

definition cell_one :: "8 word list \<Rightarrow> nat \<Rightarrow> bool" where
  "cell_one m i \<longleftrightarrow> nth_opt m i = Some 1"

definition positive_in :: "(string \<rightharpoonup> GeneCountData) \<Rightarrow> string \<Rightarrow> string \<Rightarrow> bool" where
  "positive_in cmap a g =
     (case cmap a of
        None \<Rightarrow> False
      | Some cm \<Rightarrow> (case cm g of None \<Rightarrow> False | Some c \<Rightarrow> js_gt c (Fin 0)))"

definition cell_set :: "VisualizationState \<Rightarrow> nat \<Rightarrow> nat \<Rightarrow> bool" where
  "cell_set st gi ai =
     (case matrix st of None \<Rightarrow> False | Some m \<Rightarrow> cell_one m (gi * asmCount st + ai))"

definition count_positive :: "VisualizationState \<Rightarrow> string \<Rightarrow> string \<Rightarrow> bool" where
  "count_positive st a g = positive_in (countMap st) a g"

text \<open>
  The agreement itself: for every assembly and gene that have an ordinal, the cell at
  (gene ordinal, assembly ordinal) is 1 exactly when the count is positive.
\<close>

definition consistent :: "VisualizationState \<Rightarrow> bool" where
  "consistent st \<longleftrightarrow>
     (\<forall>a g ai gi. asmIndex st a = Some ai \<and> geneIndex st g = Some gi \<longrightarrow>
        (cell_set st gi ai \<longleftrightarrow> count_positive st a g))"

text \<open>
  The assembly index of a state is sound when every ordinal is below \<^verbatim>\<open>asmCount\<close> and no
  two assemblies share one, as after \<^verbatim>\<open>loadGTDBData\<close>.
\<close>

definition index_sound :: "VisualizationState \<Rightarrow> bool" where
  "index_sound st \<longleftrightarrow>
     (\<forall>a ai. asmIndex st a = Some ai \<longrightarrow> ai < asmCount st) \<and>
     (\<forall>a b ai. asmIndex st a = Some ai \<and> asmIndex st b = Some ai \<longrightarrow> a = b)"

text \<open>
  The matrix has the dimensions of the data model: every gene ordinal is below the number
  of gene names and the array has \<open>geneCount * asmCount\<close> cells.
\<close>

definition dimensions_sound :: "VisualizationState \<Rightarrow> bool" where
  "dimensions_sound st \<longleftrightarrow>
     (\<forall>g gi. geneIndex st g = Some gi \<longrightarrow> gi < length (geneNames st)) \<and>
     (case matrix st of
        None \<Rightarrow> True
      | Some m \<Rightarrow> length m = length (geneNames st) * asmCount st)"

text \<open>The key of a data row, \<^verbatim>\<open>row[0]\<close>.\<close>

definition row_key :: "string \<Rightarrow> string option" where
  "row_key rowStr = nth_opt (split_on (CHR 0x09) rowStr) 0"

text \<open>
  The agreement on the pair (matrix, count map) that the row loop of the loader carries,
  for the gene list being loaded.
\<close>

definition agrees ::
  "VisualizationState \<Rightarrow> string list \<Rightarrow> 8 word list \<times> (string \<rightharpoonup> GeneCountData) \<Rightarrow> bool" where
  "agrees prev genes acc \<longleftrightarrow>
     length (fst acc) = length genes * asmCount prev \<and>
     (\<forall>a ai gi. asmIndex prev a = Some ai \<and> gi < length genes \<longrightarrow>
        (cell_one (fst acc) (gi * asmCount prev + ai)
           \<longleftrightarrow> positive_in (snd acc) a (genes ! gi)))"

text \<open>The count stored for an assembly and a gene, \<^verbatim>\<open>countMap.get(a)?.[g]\<close>.\<close>

definition stored_count :: "VisualizationState \<Rightarrow> string \<Rightarrow> string \<Rightarrow> number option" where
  "stored_count st a g = (case countMap st a of None \<Rightarrow> None | Some cm \<Rightarrow> cm g)"

definition processor_stored_count :: "ProcessedData \<Rightarrow> string \<Rightarrow> string \<Rightarrow> number option" where
  "processor_stored_count pd a g = (case pd_countMap pd a of None \<Rightarrow> None | Some gd \<Rightarrow> gd g)"

section \<open>Concrete inputs\<close>

text \<open>
  Four reference records whose phylum values are P1, P1, P2, P1 (scenario C of the
  specification), and the state of the hook after loading them with by-level
  normalisation on the phylum selected.
\<close>

definition scenario_records :: "GTDBRecord list" where
  "scenario_records =
     [\<lparr>assembly = ''A1'', phylum = ''P1'', class_lvl = ''c'', order_lvl = ''o'', family = ''f'', genus = ''g''\<rparr>,
      \<lparr>assembly = ''A2'', phylum = ''P1'', class_lvl = ''c'', order_lvl = ''o'', family = ''f'', genus = ''g''\<rparr>,
      \<lparr>assembly = ''A3'', phylum = ''P2'', class_lvl = ''c'', order_lvl = ''o'', family = ''f'', genus = ''g''\<rparr>,
      \<lparr>assembly = ''A4'', phylum = ''P1'', class_lvl = ''c'', order_lvl = ''o'', family = ''f'', genus = ''g''\<rparr>]"

definition scenario_state :: VisualizationState where
  "scenario_state = setNormalizeLevel (Level Phylum) (loadGTDBData scenario_records initial_state)"

text \<open>
  Scenario A of the specification: two reference records X and Y and the table
  \<^verbatim>\<open>Assembly\tgA\tgB\nX\t2\t0\nY\t0\t3\n\<close>; the same table with the two value columns named
  \<^verbatim>\<open>gA_count\<close> and \<^verbatim>\<open>gB_count\<close>; and a table whose only count field is not numeric.
\<close>

definition xy_records :: "GTDBRecord list" where
  "xy_records =
     [\<lparr>assembly = ''X'', phylum = ''P1'', class_lvl = ''c'', order_lvl = ''o'', family = ''f'', genus = ''g''\<rparr>,
      \<lparr>assembly = ''Y'', phylum = ''P2'', class_lvl = ''c'', order_lvl = ''o'', family = ''f'', genus = ''g''\<rparr>]"

definition xy_state :: VisualizationState where
  "xy_state = loadGTDBData xy_records initial_state"


definition tsv_count :: string where
  "tsv_count =
     ''Assembly'' @ [CHR 0x09] @ ''gA_count'' @ [CHR 0x09] @ ''gB_count'' @ [CHR 0x0A] @
     ''X'' @ [CHR 0x09] @ ''2'' @ [CHR 0x09] @ ''0'' @ [CHR 0x0A] @
     ''Y'' @ [CHR 0x09] @ ''0'' @ [CHR 0x09] @ ''3'' @ [CHR 0x0A]"

definition tsv_malformed :: string where
  "tsv_malformed =
     ''Assembly'' @ [CHR 0x09] @ ''gA_count'' @ [CHR 0x0A] @
     ''X'' @ [CHR 0x09] @ ''abc'' @ [CHR 0x0A]"

text \<open>The counted table with a third row whose key Z is no reference record.\<close>

definition tsv_unknown :: string where
  "tsv_unknown = tsv_count @ ''Z'' @ [CHR 0x09] @ ''5'' @ [CHR 0x09] @ ''5'' @ [CHR 0x0A]"

text \<open>The state after loading the counted table, and a presence-mode comparison request.\<close>

definition loaded_state :: VisualizationState where
  "loaded_state = loadTSVData tsv_count xy_state"

definition ab_request :: DifferenceOptions where
  "ab_request = \<lparr>gene1 = ''gA_count'', gene2 = ''gB_count'', useCounts = False\<rparr>"


section \<open>Properties of the presence toggle\<close>

lemma flip_cell_twice: "v = 0 \<or> v = 1 \<Longrightarrow> flip_cell (flip_cell v) = v"
  by (auto simp: flip_cell_def)

lemma flip_number_twice: "v = Fin 0 \<or> v = Fin 1 \<Longrightarrow> flip_number (flip_number v) = v"
  by (auto simp: flip_number_def)

lemma map_flip_cell_twice:
  "\<forall>v \<in> set m. v = 0 \<or> v = 1 \<Longrightarrow> map (flip_cell \<circ> flip_cell) m = m"
  by (induction m) (simp_all add: flip_cell_twice)

lemma map_flip_number_twice:
  "\<forall>v \<in> set row. v = Fin 0 \<or> v = Fin 1 \<Longrightarrow> map (flip_number \<circ> flip_number) row = row"
  by (induction row) (simp_all add: flip_number_twice)

text \<open>
  Claim C5. On a presence matrix whose cells are all 0 or 1, toggling twice gives the
  matrix back, and one toggle keeps the dimensions. For the hook this is stated on the
  whole state (the flat \<^verbatim>\<open>Uint8Array\<close> keeps its length, and the second toggle restores
  the state, \<^verbatim>\<open>showPresence\<close> included); for \<^verbatim>\<open>DataProcessor.togglePresenceMatrix\<close>
  on the list of rows (same number of rows, each row of the same length).
\<close>

theorem toggle_involution:
  "((\<forall>m. matrix st = Some m \<longrightarrow> (\<forall>v \<in> set m. v = 0 \<or> v = 1)) \<longrightarrow>
      togglePresence (togglePresence st) = st \<and>
      map_option length (matrix (togglePresence st)) = map_option length (matrix st)) \<and>
   ((\<forall>row \<in> set M. \<forall>v \<in> set row. v = Fin 0 \<or> v = Fin 1) \<longrightarrow>
      togglePresenceMatrix (togglePresenceMatrix M) = M \<and>
      map length (togglePresenceMatrix M) = map length M)"
proof (intro conjI impI)
  assume h: "\<forall>m. matrix st = Some m \<longrightarrow> (\<forall>v \<in> set m. v = 0 \<or> v = 1)"
  show "togglePresence (togglePresence st) = st"
  proof (cases "matrix st")
    case None
    then show ?thesis by (simp add: togglePresence_def)
  next
    case (Some m)
    with h have "\<forall>v \<in> set m. v = 0 \<or> v = 1" by blast
    then have "map (flip_cell \<circ> flip_cell) m = m"
      by (rule map_flip_cell_twice)
    with Some show ?thesis by (simp add: togglePresence_def)
  qed
next
  show "map_option length (matrix (togglePresence st)) = map_option length (matrix st)"
    by (cases "matrix st") (simp_all add: togglePresence_def)
next
  assume h: "\<forall>row \<in> set M. \<forall>v \<in> set row. v = Fin 0 \<or> v = Fin 1"
  then have "map (\<lambda>row. map flip_number (map flip_number row)) M = M"
    by (induction M) (simp_all add: map_flip_number_twice)
  then show "togglePresenceMatrix (togglePresenceMatrix M) = M"
    by (simp add: togglePresenceMatrix_def comp_def)
next
  show "map length (togglePresenceMatrix M) = map length M"
    by (simp add: togglePresenceMatrix_def comp_def)
qed

theorem toggle_involution_witness:
  "togglePresence (togglePresence
      \<lparr>originalRaw = [], raw = [], assemblies = [], selectedLevels = [Phylum],
       totalInput = 2, geneNames = [''gA_count'', ''gB_count''],
       matrix = Some [1, 0, 0, 1], asmCount = 2, countMap = Map.empty,
       asmIndex = Map.empty, geneIndex = Map.empty, coordMap = Map.empty,
       widthMap = Map.empty, normalizeLevel = Null, showPresence = True,
       activeGenes = [], isLoading = False, loadingMessage = []\<rparr>)
    = \<lparr>originalRaw = [], raw = [], assemblies = [], selectedLevels = [Phylum],
       totalInput = 2, geneNames = [''gA_count'', ''gB_count''],
       matrix = Some [1, 0, 0, 1], asmCount = 2, countMap = Map.empty,
       asmIndex = Map.empty, geneIndex = Map.empty, coordMap = Map.empty,
       widthMap = Map.empty, normalizeLevel = Null, showPresence = True,
       activeGenes = [], isLoading = False, loadingMessage = []\<rparr> \<and>
   togglePresenceMatrix (togglePresenceMatrix [[Fin 1, Fin 0], [Fin 0, Fin 1]])
    = [[Fin 1, Fin 0], [Fin 0, Fin 1]] \<and>
   togglePresenceMatrix [[Fin 1, Fin 0], [Fin 0, Fin 1]] = [[Fin 0, Fin 1], [Fin 1, Fin 0]]"
  using toggle_involution
    [of "\<lparr>originalRaw = [], raw = [], assemblies = [], selectedLevels = [Phylum],
       totalInput = 2, geneNames = [''gA_count'', ''gB_count''],
       matrix = Some [1, 0, 0, 1], asmCount = 2, countMap = Map.empty,
       asmIndex = Map.empty, geneIndex = Map.empty, coordMap = Map.empty,
       widthMap = Map.empty, normalizeLevel = Null, showPresence = True,
       activeGenes = [], isLoading = False, loadingMessage = []\<rparr>"
        "[[Fin 1, Fin 0], [Fin 0, Fin 1]]"]
  by (simp add: togglePresenceMatrix_def flip_number_def)

section \<open>Properties of the run computation\<close>

lemma scan_runs_nonempty: "scan_runs n vs k s c \<noteq> []"
  by (induction vs arbitrary: k s c) auto

lemma scan_runs_hd_cat: "cat (hd (scan_runs n vs k s c)) = c"
  by (induction vs arbitrary: k s c) auto

lemma scan_runs_tiles:
  "s < k \<Longrightarrow> n = k + length vs \<Longrightarrow> tiles s n (scan_runs n vs k s c)"
  by (induction vs arbitrary: k s c) auto

lemma scan_runs_alternating: "alternating (scan_runs n vs k s c)"
proof (induction vs arbitrary: k s c)
  case Nil then show ?case by simp
next
  case (Cons v vs)
  show ?case
  proof (cases "v = c")
    case True then show ?thesis using Cons by simp
  next
    case False
    obtain r rs where e: "scan_runs n vs (Suc k) k v = r # rs"
      using scan_runs_nonempty[of n vs "Suc k" k v] by (cases "scan_runs n vs (Suc k) k v") auto
    have "cat r = v" using scan_runs_hd_cat[of n vs "Suc k" k v] e by simp
    moreover have "alternating (r # rs)" using Cons[of "Suc k" k v] e by simp
    ultimately show ?thesis using False e by auto
  qed
qed

lemma scan_runs_uniform:
  "s < k \<Longrightarrow> n = k + length vs \<Longrightarrow> length ws = n \<Longrightarrow> drop k ws = vs \<Longrightarrow>
   \<forall>j. s \<le> j \<and> j < k \<longrightarrow> ws ! j = c \<Longrightarrow>
   \<forall>r \<in> set (scan_runs n vs k s c). \<forall>j. start r \<le> j \<and> j \<le> end_idx r \<longrightarrow> ws ! j = cat r"
proof (induction vs arbitrary: k s c)
  case Nil
  then show ?case by auto
next
  case (Cons v vs)
  have klt: "k < length ws" using Cons.prems by simp
  have kv: "ws ! k = v" using Cons.prems(4) klt by (metis nth_via_drop)
  have dr: "drop (Suc k) ws = vs" using Cons.prems(4) by (metis drop_Suc list.sel(3) tl_drop)
  have n: "n = Suc k + length vs" using Cons.prems(2) by simp
  show ?case
  proof (cases "v = c")
    case True
    have u: "\<forall>j. s \<le> j \<and> j < Suc k \<longrightarrow> ws ! j = c"
      using Cons.prems(5) kv True by (auto simp: less_Suc_eq)
    have "s < Suc k" using Cons.prems(1) by simp
    from Cons.IH[OF this n Cons.prems(3) dr u] show ?thesis using True by simp
  next
    case False
    have u: "\<forall>j. k \<le> j \<and> j < Suc k \<longrightarrow> ws ! j = v" using kv by (auto simp: less_Suc_eq)
    have "k < Suc k" by simp
    from Cons.IH[OF this n Cons.prems(3) dr u]
    show ?thesis using False Cons.prems(1,5) by auto
  qed
qed

lemma hook_scan_Some: "hook_scan n (map Some vs) k s c = scan_runs n vs k s c"
  by (induction vs arbitrary: k s c) auto


lemma tiles_hd: "tiles s n rs \<Longrightarrow> rs \<noteq> [] \<Longrightarrow> start (hd rs) = s"
  by (cases rs) auto

lemma tiles_last: "tiles s n rs \<Longrightarrow> rs \<noteq> [] \<Longrightarrow> Suc (end_idx (last rs)) = n"
  by (induction rs arbitrary: s) (auto split: if_splits)

lemma tiles_ordered: "tiles s n rs \<Longrightarrow> r \<in> set rs \<Longrightarrow> start r \<le> end_idx r"
  by (induction rs arbitrary: s) auto

lemma tiles_adjacent:
  "tiles s n rs \<Longrightarrow> Suc i < length rs \<Longrightarrow> start (rs ! Suc i) = Suc (end_idx (rs ! i))"
proof (induction rs arbitrary: s i)
  case Nil then show ?case by simp
next
  case (Cons r rs)
  show ?case
  proof (cases i)
    case 0
    then show ?thesis using Cons.prems by (cases rs) auto
  next
    case (Suc i')
    then show ?thesis using Cons.prems Cons.IH[of "Suc (end_idx r)" i'] by simp
  qed
qed

lemma alternating_adjacent:
  "alternating rs \<Longrightarrow> Suc i < length rs \<Longrightarrow> cat (rs ! Suc i) \<noteq> cat (rs ! i)"
proof (induction rs arbitrary: i rule: alternating.induct)
  case (1 r r' rs)
  then show ?case by (cases i) auto
qed simp_all

lemma scan_runs_partition:
  "run_partition (c # vs) (scan_runs (Suc (length vs)) vs 1 0 c)"
proof -
  let ?ws = "c # vs"
  let ?rs = "scan_runs (Suc (length vs)) vs 1 0 c"
  have t: "tiles 0 (Suc (length vs)) ?rs" by (rule scan_runs_tiles) simp_all
  have a: "alternating ?rs" by (rule scan_runs_alternating)
  have ne: "?rs \<noteq> []" by (rule scan_runs_nonempty)
  have u: "\<forall>r \<in> set ?rs. \<forall>j. start r \<le> j \<and> j \<le> end_idx r \<longrightarrow> ?ws ! j = cat r"
    by (rule scan_runs_uniform) simp_all
  have l: "end_idx (last ?rs) = length ?ws - 1" using tiles_last[OF t ne] by simp
  show ?thesis
    unfolding run_partition_def
    using ne tiles_hd[OF t ne] tiles_ordered[OF t] tiles_adjacent[OF t] alternating_adjacent[OF a] u l
    by blast
qed

lemma raw_level_tail:
  "map (\<lambda>k. raw_level (d # ds) k level) [Suc 0..<Suc (length ds)]
     = map Some (map (\<lambda>x. level_of x level) ds)"
  by (rule nth_equalityI) (simp_all add: raw_level_def del: upt_Suc)

lemma canvas_runs_scan:
  "canvas_runs (d # ds) level
     = scan_runs (Suc (length (map (\<lambda>x. level_of x level) ds)))
         (map (\<lambda>x. level_of x level) ds) 1 0 (level_of d level)"
  by (simp add: canvas_runs_def)

lemma hook_runs_scan:
  assumes "raw st = d # ds" and "length (assemblies st) = length (raw st)"
  shows "hook_runs st level
     = scan_runs (Suc (length (map (\<lambda>x. level_of x level) ds)))
         (map (\<lambda>x. level_of x level) ds) 1 0 (level_of d level)"
proof -
  have "hook_runs st level
      = hook_scan (Suc (length ds)) (map (\<lambda>k. raw_level (d # ds) k level) [Suc 0..<Suc (length ds)])
          1 0 (or_empty (raw_level (d # ds) 0 level))"
    using assms by (simp add: hook_runs_def del: upt_Suc)
  also have "or_empty (raw_level (d # ds) 0 level) = level_of d level"
    by (simp add: raw_level_def)
  finally show ?thesis
    by (simp only: raw_level_tail hook_scan_Some length_map)
qed

text \<open>
  Claim C4. For a non-empty sequence of category values the computed runs partition the
  index range: the first run starts at 0, the last one ends at \<open>length - 1\<close>, every run
  has \<open>start \<le> end\<close>, each run starts right after its predecessor ends (no gap, no
  overlap), adjacent runs carry different values (maximality), and every index of a run
  holds the run's value. This is \<open>run_partition\<close>; it is proved for the run computation of
  the canvas and for that of the hook's layout (there for a state whose assembly list is
  in step with its record list, as every state transition leaves it).
\<close>

theorem runs_partition:
  "(data \<noteq> [] \<longrightarrow>
      run_partition (map (\<lambda>d. level_of d level) data) (canvas_runs data level)) \<and>
   (assemblies st \<noteq> [] \<and> assemblies st = map assembly (raw st) \<longrightarrow>
      run_partition (map (\<lambda>d. level_of d level) (raw st)) (hook_runs st level))"
proof (intro conjI impI)
  assume "data \<noteq> []"
  then obtain d ds where d: "data = d # ds" by (cases data) auto
  have "run_partition (level_of d level # map (\<lambda>x. level_of x level) ds) (canvas_runs (d # ds) level)"
    unfolding canvas_runs_scan by (rule scan_runs_partition)
  then show "run_partition (map (\<lambda>d. level_of d level) data) (canvas_runs data level)"
    by (simp only: d list.map)
next
  assume h: "assemblies st \<noteq> [] \<and> assemblies st = map assembly (raw st)"
  then obtain d ds where d: "raw st = d # ds" by (cases "raw st") auto
  have len: "length (assemblies st) = length (raw st)" using h by simp
  have "run_partition (level_of d level # map (\<lambda>x. level_of x level) ds) (hook_runs st level)"
    unfolding hook_runs_scan[OF d len] by (rule scan_runs_partition)
  then show "run_partition (map (\<lambda>d. level_of d level) (raw st)) (hook_runs st level)"
    by (simp only: d list.map)
qed

section \<open>Properties of the layout\<close>















section \<open>Shares of runs and categories under by-level normalisation\<close>






lemma scenario_raw: "raw scenario_state = scenario_records"
  by (simp add: scenario_state_def setNormalizeLevel_def loadGTDBData_def)

lemma scenario_assemblies: "assemblies scenario_state = [''A1'', ''A2'', ''A3'', ''A4'']"
  by (simp add: scenario_state_def setNormalizeLevel_def loadGTDBData_def scenario_records_def)






text \<open>
  Claim C9 at the input where \<^verbatim>\<open>DataProcessor.buildLayout\<close> departs from it. Over an
  empty assembly list the unnormalised and the \<^verbatim>\<open>__ALL__\<close> mode return two empty maps,
  but the by-level mode reads \<^verbatim>\<open>assemblies[0][normalizeLevel]\<close> and throws a
  \<^verbatim>\<open>TypeError\<close>.
\<close>

theorem buildLayout_empty:
  "buildLayout [] None = Inr (Map.empty, Map.empty) \<and>
   buildLayout [] (Some ''__ALL__'') = Inr (Map.empty, Map.empty) \<and>
   buildLayout [] (Some ''phylum'') = Inl TypeError"
  by (simp add: buildLayout_def)

theorem runs_partition_witness:
  "scenario_records \<noteq> [] \<and>
   run_partition (map (\<lambda>d. level_of d Phylum) scenario_records)
     (canvas_runs scenario_records Phylum) \<and>
   canvas_runs scenario_records Phylum =
     [\<lparr>cat = ''P1'', start = 0, end_idx = 1\<rparr>, \<lparr>cat = ''P2'', start = 2, end_idx = 2\<rparr>,
      \<lparr>cat = ''P1'', start = 3, end_idx = 3\<rparr>] \<and>
   (assemblies scenario_state \<noteq> [] \<and>
    assemblies scenario_state = map assembly (raw scenario_state)) \<and>
   run_partition (map (\<lambda>d. level_of d Phylum) (raw scenario_state))
     (hook_runs scenario_state Phylum)"
proof -
  have h1: "scenario_records \<noteq> []" by (simp add: scenario_records_def)
  have h2: "assemblies scenario_state \<noteq> [] \<and>
    assemblies scenario_state = map assembly (raw scenario_state)"
    by (simp add: scenario_raw scenario_assemblies scenario_records_def)
  have e: "canvas_runs scenario_records Phylum =
     [\<lparr>cat = ''P1'', start = 0, end_idx = 1\<rparr>, \<lparr>cat = ''P2'', start = 2, end_idx = 2\<rparr>,
      \<lparr>cat = ''P1'', start = 3, end_idx = 3\<rparr>]"
    by (simp add: canvas_runs_def scenario_records_def)
  show ?thesis
    using runs_partition[of scenario_records Phylum scenario_state] h1 h2 e by blast
qed

section \<open>Properties of the table loaders\<close>



lemma load_rows_filter:
  "load_rows prev header genes (filter (row_known prev) rows) acc
     = load_rows prev header genes rows acc"
  by (induction rows arbitrary: acc)
     (auto simp: row_known_def Let_def split: option.splits)

lemma load_rows_unknown_key:
  "asmIndex prev k = None \<Longrightarrow> snd (load_rows prev header genes rows acc) k = snd acc k"
  by (induction rows arbitrary: acc) (auto simp: Let_def split: option.splits)

text \<open>
  Claim C10. The reported row count is the number of non-empty data lines, whether or
  not their key is known; the matrix and the count map are those obtained from the rows
  with a known key alone; and no key outside the assembly index gets a count-map entry.
\<close>

theorem unknown_rows_skipped:
  "totalInput (loadTSVData tsvText st) = length (tsv_rows tsvText) \<and>
   matrix (loadTSVData tsvText st)
     = matrix (load_parsed (tsv_header tsvText) (filter (row_known st) (tsv_rows tsvText)) st) \<and>
   countMap (loadTSVData tsvText st)
     = countMap (load_parsed (tsv_header tsvText) (filter (row_known st) (tsv_rows tsvText)) st) \<and>
   (\<forall>k. asmIndex st k = None \<longrightarrow> countMap (loadTSVData tsvText st) k = None)"
  by (simp add: loadTSVData_def load_parsed_def Let_def load_rows_filter load_rows_unknown_key)

theorem unknown_rows_skipped_witness:
  "asmIndex xy_state ''Z'' = None \<and>
   countMap (loadTSVData tsv_unknown xy_state) ''Z'' = None \<and>
   totalInput (loadTSVData tsv_unknown xy_state) = 3 \<and>
   filter (row_known xy_state) (tsv_rows tsv_unknown) = tsv_rows tsv_count \<and>
   matrix (loadTSVData tsv_unknown xy_state) = matrix (loadTSVData tsv_count xy_state)"
proof -
  have z: "asmIndex xy_state ''Z'' = None" by code_simp
  have r: "filter (row_known xy_state) (tsv_rows tsv_unknown) = tsv_rows tsv_count" by code_simp
  have h: "tsv_header tsv_unknown = tsv_header tsv_count" by code_simp
  have n: "length (tsv_rows tsv_unknown) = 3" by code_simp
  note t = unknown_rows_skipped[of tsv_unknown xy_state]
  from t z have a: "countMap (loadTSVData tsv_unknown xy_state) ''Z'' = None" by blast
  from t n have b: "totalInput (loadTSVData tsv_unknown xy_state) = 3" by simp
  from t have "matrix (loadTSVData tsv_unknown xy_state)
     = matrix (load_parsed (tsv_header tsv_unknown)
         (filter (row_known xy_state) (tsv_rows tsv_unknown)) xy_state)"
    by blast
  then have c: "matrix (loadTSVData tsv_unknown xy_state) = matrix (loadTSVData tsv_count xy_state)"
    by (simp only: r h loadTSVData_def)
  show ?thesis using z a b r c by blast
qed

section \<open>Properties of the difference-gene synthesis\<close>

text \<open>
  Claim C8. A synthesis request with an empty gene or with twice the same gene returns
  normally and leaves the gene names, the gene index, the matrix, the count map and the
  active genes as they were.
\<close>

theorem invalid_difference_request_noop:
  "gene1 opts = [] \<or> gene2 opts = [] \<or> gene1 opts = gene2 opts \<longrightarrow>
     (\<exists>st'. addDifferenceVisualization opts st = Inr st' \<and>
        geneNames st' = geneNames st \<and> geneIndex st' = geneIndex st \<and>
        matrix st' = matrix st \<and> countMap st' = countMap st \<and>
        activeGenes st' = activeGenes st)"
  by (auto simp: addDifferenceVisualization_def)

theorem invalid_difference_request_noop_witness:
  "(gene1 \<lparr>gene1 = ''gA_count'', gene2 = ''gA_count'', useCounts = True\<rparr> = [] \<or>
    gene2 \<lparr>gene1 = ''gA_count'', gene2 = ''gA_count'', useCounts = True\<rparr> = [] \<or>
    gene1 \<lparr>gene1 = ''gA_count'', gene2 = ''gA_count'', useCounts = True\<rparr>
      = gene2 \<lparr>gene1 = ''gA_count'', gene2 = ''gA_count'', useCounts = True\<rparr>) \<and>
   (\<exists>st'. addDifferenceVisualization \<lparr>gene1 = ''gA_count'', gene2 = ''gA_count'', useCounts = True\<rparr>
            loaded_state = Inr st' \<and>
        geneNames st' = geneNames loaded_state \<and> geneIndex st' = geneIndex loaded_state \<and>
        matrix st' = matrix loaded_state \<and> countMap st' = countMap loaded_state \<and>
        activeGenes st' = activeGenes loaded_state)"
  using invalid_difference_request_noop
    [of "\<lparr>gene1 = ''gA_count'', gene2 = ''gA_count'', useCounts = True\<rparr>" loaded_state]
  by simp

text \<open>
  Claim C6, as amended. For a request with two distinct non-empty genes (and a matrix that
  fits the enlarged array) the two names \<open>label gene1 gene2\<close> and \<open>label gene2 gene1\<close> are
  appended at positions \<open>n\<close> and \<open>n + 1\<close> of the gene name list, \<open>n\<close> being its former
  length; the gene index maps the second name to \<open>n + 1\<close>, the first name to \<open>n\<close> unless
  both names coincide, and is unchanged elsewhere. Nothing compares the names with the
  names already present.
\<close>

theorem difference_names_appended:
  "gene1 opts \<noteq> [] \<and> gene2 opts \<noteq> [] \<and> gene1 opts \<noteq> gene2 opts \<and>
   (case matrix st of None \<Rightarrow> 0 | Some m \<Rightarrow> length m) \<le> (length (geneNames st) + 2) * asmCount st \<longrightarrow>
     (\<exists>st'. addDifferenceVisualization opts st = Inr st' \<and>
        geneNames st' = geneNames st @
          [label (useCounts opts) (gene1 opts) (gene2 opts),
           label (useCounts opts) (gene2 opts) (gene1 opts)] \<and>
        geneIndex st' (label (useCounts opts) (gene2 opts) (gene1 opts))
          = Some (length (geneNames st) + 1) \<and>
        (label (useCounts opts) (gene1 opts) (gene2 opts)
           \<noteq> label (useCounts opts) (gene2 opts) (gene1 opts) \<longrightarrow>
         geneIndex st' (label (useCounts opts) (gene1 opts) (gene2 opts))
           = Some (length (geneNames st))) \<and>
        (\<forall>g. g \<noteq> label (useCounts opts) (gene1 opts) (gene2 opts) \<and>
             g \<noteq> label (useCounts opts) (gene2 opts) (gene1 opts) \<longrightarrow>
             geneIndex st' g = geneIndex st g))"
  by (cases "matrix st") (auto simp: addDifferenceVisualization_def Let_def)

theorem difference_names_appended_witness:
  "(gene1 ab_request \<noteq> [] \<and> gene2 ab_request \<noteq> [] \<and> gene1 ab_request \<noteq> gene2 ab_request \<and>
    (case matrix loaded_state of None \<Rightarrow> 0 | Some m \<Rightarrow> length m)
      \<le> (length (geneNames loaded_state) + 2) * asmCount loaded_state) \<and>
   (\<exists>st'. addDifferenceVisualization ab_request loaded_state = Inr st' \<and>
      geneNames st' = [''gA_count'', ''gB_count'', ''gA-gB'', ''gB-gA''] \<and>
      geneIndex st' ''gB-gA'' = Some 3 \<and> geneIndex st' ''gA-gB'' = Some 2 \<and>
      geneIndex st' ''gA_count'' = Some 0)"
proof -
  have h: "gene1 ab_request \<noteq> [] \<and> gene2 ab_request \<noteq> [] \<and> gene1 ab_request \<noteq> gene2 ab_request \<and>
    (case matrix loaded_state of None \<Rightarrow> 0 | Some m \<Rightarrow> length m)
      \<le> (length (geneNames loaded_state) + 2) * asmCount loaded_state"
    by code_simp
  have n: "geneNames loaded_state = [''gA_count'', ''gB_count'']" by code_simp
  have i: "geneIndex loaded_state ''gA_count'' = Some 0" by code_simp
  have l1: "label (useCounts ab_request) (gene1 ab_request) (gene2 ab_request) = ''gA-gB''" by code_simp
  have l2: "label (useCounts ab_request) (gene2 ab_request) (gene1 ab_request) = ''gB-gA''" by code_simp
  from difference_names_appended[of ab_request loaded_state] h
  obtain st' where "addDifferenceVisualization ab_request loaded_state = Inr st'"
    "geneNames st' = geneNames loaded_state @ [''gA-gB'', ''gB-gA'']"
    "geneIndex st' ''gB-gA'' = Some (length (geneNames loaded_state) + 1)"
    "''gA-gB'' \<noteq> ''gB-gA'' \<longrightarrow> geneIndex st' ''gA-gB'' = Some (length (geneNames loaded_state))"
    "\<forall>g. g \<noteq> ''gA-gB'' \<and> g \<noteq> ''gB-gA'' \<longrightarrow> geneIndex st' g = geneIndex loaded_state g"
    unfolding l1 l2 by blast
  then have "addDifferenceVisualization ab_request loaded_state = Inr st' \<and>
      geneNames st' = [''gA_count'', ''gB_count'', ''gA-gB'', ''gB-gA''] \<and>
      geneIndex st' ''gB-gA'' = Some 3 \<and> geneIndex st' ''gA-gB'' = Some 2 \<and>
      geneIndex st' ''gA_count'' = Some 0"
    using n i by simp
  then show ?thesis using h by blast
qed

text \<open>
  The claim as stated fails when a request is repeated: in the state that the first
  synthesis returns, both names of the same request are already in the gene name list.
\<close>

theorem difference_names_fresh_counterexample:
  "gene1 ab_request \<noteq> gene2 ab_request \<and>
   \<not> isl (addDifferenceVisualization ab_request loaded_state) \<and>
   label (useCounts ab_request) (gene1 ab_request) (gene2 ab_request)
     \<in> set (geneNames (projr (addDifferenceVisualization ab_request loaded_state))) \<and>
   label (useCounts ab_request) (gene2 ab_request) (gene1 ab_request)
     \<in> set (geneNames (projr (addDifferenceVisualization ab_request loaded_state)))"
  by code_simp

section \<open>Agreement of the matrix with the count map\<close>

subsection \<open>Index maps\<close>

lemma from_entries_upt:
  "from_entries (zip xs [k..<k + length xs]) m g = Some gi \<Longrightarrow>
   m g = Some gi \<or> (k \<le> gi \<and> gi < k + length xs \<and> xs ! (gi - k) = g)"
proof (induction xs arbitrary: k m)
  case Nil then show ?case by simp
next
  case (Cons x xs)
  have "zip (x # xs) [k..<k + length (x # xs)] = (x, k) # zip xs [Suc k..<Suc k + length xs]"
    by (simp add: upt_rec)
  then have "from_entries (zip xs [Suc k..<Suc k + length xs]) (m(x \<mapsto> k)) g = Some gi"
    using Cons.prems by simp
  from Cons.IH[OF this]
  show ?case by (auto simp: Suc_diff_le split: if_splits)
qed

lemma index_map_Some:
  "index_map names g = Some gi \<Longrightarrow> gi < length names \<and> names ! gi = g"
  using from_entries_upt[of names 0 Map.empty g gi] by (simp add: index_map_def)

lemma loadGTDBData_index_sound: "index_sound (loadGTDBData jsonData st)"
  unfolding index_sound_def
proof (intro conjI allI impI)
  fix a ai assume "asmIndex (loadGTDBData jsonData st) a = Some ai"
  then show "ai < asmCount (loadGTDBData jsonData st)"
    using index_map_Some[of "map assembly jsonData" a ai] by (simp add: loadGTDBData_def)
next
  fix a b ai
  assume "asmIndex (loadGTDBData jsonData st) a = Some ai \<and>
          asmIndex (loadGTDBData jsonData st) b = Some ai"
  then show "a = b"
    using index_map_Some[of "map assembly jsonData" a ai]
      index_map_Some[of "map assembly jsonData" b ai]
    by (simp add: loadGTDBData_def)
qed

lemma load_genes_record:
  "fst (load_genes header row n ai gs gi acc) g
     = (if g \<in> set gs then Some (row_count header row g) else fst acc g)"
  by (induction gs arbitrary: gi acc) (auto simp: Let_def)

lemma load_genes_length:
  "length (snd (load_genes header row n ai gs gi acc)) = length (snd acc)"
  by (induction gs arbitrary: gi acc) (auto simp: Let_def)

lemma load_genes_cell:
  "cell_one (snd (load_genes header row n ai gs gi acc)) i \<longleftrightarrow>
     (i < length (snd acc) \<and>
      (\<exists>k < length gs. i = (gi + k) * n + ai \<and> js_gt (row_count header row (gs ! k)) (Fin 0))) \<or>
     cell_one (snd acc) i"
proof (induction gs arbitrary: gi acc)
  case Nil then show ?case by simp
next
  case (Cons g gs)
  let ?pos = "\<lambda>g. js_gt (row_count header row g) (Fin 0)"
  let ?m1 = "if ?pos g then (snd acc)[gi * n + ai := 1] else snd acc"
  have ex: "(\<exists>k < length (g # gs). i = (gi + k) * n + ai \<and> ?pos ((g # gs) ! k)) \<longleftrightarrow>
     (i = gi * n + ai \<and> ?pos g) \<or> (\<exists>k < length gs. i = (Suc gi + k) * n + ai \<and> ?pos (gs ! k))"
    (is "?L \<longleftrightarrow> ?A \<or> ?B")
  proof
    assume ?L
    then obtain k where k: "k < length (g # gs)" "i = (gi + k) * n + ai" "?pos ((g # gs) ! k)"
      by blast
    show "?A \<or> ?B"
    proof (cases k)
      case 0 then show ?thesis using k by simp
    next
      case (Suc k')
      then have "k' < length gs" "i = (Suc gi + k') * n + ai" "?pos (gs ! k')" using k by simp_all
      then show ?thesis by blast
    qed
  next
    assume "?A \<or> ?B"
    then show ?L
    proof
      assume ?A
      then have "0 < length (g # gs) \<and> i = (gi + 0) * n + ai \<and> ?pos ((g # gs) ! 0)" by simp
      then show ?L by blast
    next
      assume ?B
      then obtain k where "k < length gs" "i = (Suc gi + k) * n + ai" "?pos (gs ! k)" by blast
      then have "Suc k < length (g # gs) \<and> i = (gi + Suc k) * n + ai \<and> ?pos ((g # gs) ! Suc k)"
        by simp
      then show ?L by blast
    qed
  qed
  have c1: "cell_one ?m1 i \<longleftrightarrow> (i < length (snd acc) \<and> i = gi * n + ai \<and> ?pos g) \<or> cell_one (snd acc) i"
    by (cases "i = gi * n + ai") (auto simp: cell_one_def nth_opt_def)
  have "cell_one (snd (load_genes header row n ai (g # gs) gi acc)) i \<longleftrightarrow>
      (i < length ?m1 \<and> (\<exists>k < length gs. i = (Suc gi + k) * n + ai \<and> ?pos (gs ! k))) \<or> cell_one ?m1 i"
    using Cons.IH[of "Suc gi" "((fst acc)(g \<mapsto> row_count header row g), ?m1)"]
    by (simp add: Let_def)
  also have "length ?m1 = length (snd acc)" by simp
  finally show ?case unfolding c1 ex by blast
qed

lemma same_column:
  fixes n :: nat
  assumes "ai < n" and "ai' < n" and "gi * n + ai' = k * n + ai"
  shows "ai' = ai \<and> k = gi"
proof -
  have "(gi * n + ai') mod n = (k * n + ai) mod n" using assms(3) by simp
  then have a: "ai' = ai" using assms(1,2) by simp
  then have "gi * n = k * n" using assms(3) by simp
  then have "k = gi" using assms(1) by simp
  then show ?thesis using a by simp
qed

lemma load_row_agrees:
  fixes header row :: "string list"
  assumes ix: "index_sound prev" and ag: "agrees prev genes acc"
    and ai: "asmIndex prev a = Some ai" and fresh: "snd acc a = None"
  defines "r \<equiv> load_genes header row (asmCount prev) ai genes 0 (Map.empty, fst acc)"
  shows "agrees prev genes (snd r, (snd acc)(a \<mapsto> fst r))"
  unfolding agrees_def
proof (intro conjI allI impI)
  let ?n = "asmCount prev"
  show "length (fst (snd r, (snd acc)(a \<mapsto> fst r))) = length genes * ?n"
    using ag by (simp add: r_def load_genes_length agrees_def)
  fix a' ai' gi
  assume h: "asmIndex prev a' = Some ai' \<and> gi < length genes"
  have lt: "ai < ?n" "ai' < ?n" using ix ai h by (auto simp: index_sound_def)
  have "Suc gi * ?n \<le> length genes * ?n" using h by (simp add: Suc_leI mult_le_mono1 del: mult_Suc)
  then have inr: "gi * ?n + ai' < length (fst acc)" using lt ag by (simp add: agrees_def)
  have old: "cell_one (fst acc) (gi * ?n + ai') \<longleftrightarrow> positive_in (snd acc) a' (genes ! gi)"
    using ag h by (simp add: agrees_def)
  have cell: "cell_one (snd r) (gi * ?n + ai') \<longleftrightarrow>
      (\<exists>k < length genes. gi * ?n + ai' = k * ?n + ai \<and>
         js_gt (row_count header row (genes ! k)) (Fin 0)) \<or>
      cell_one (fst acc) (gi * ?n + ai')"
    unfolding r_def load_genes_cell using inr by simp
  show "cell_one (fst (snd r, (snd acc)(a \<mapsto> fst r))) (gi * ?n + ai')
      \<longleftrightarrow> positive_in (snd (snd r, (snd acc)(a \<mapsto> fst r))) a' (genes ! gi)"
  proof (cases "a' = a")
    case True
    then have e: "ai' = ai" using ai h by simp
    have "\<not> cell_one (fst acc) (gi * ?n + ai')"
      using old fresh True by (simp add: positive_in_def)
    moreover have "(\<exists>k < length genes. gi * ?n + ai' = k * ?n + ai \<and>
         js_gt (row_count header row (genes ! k)) (Fin 0))
       \<longleftrightarrow> js_gt (row_count header row (genes ! gi)) (Fin 0)"
      using h e lt same_column[of ai ?n ai gi] by auto
    moreover have "positive_in ((snd acc)(a \<mapsto> fst r)) a (genes ! gi)
       \<longleftrightarrow> js_gt (row_count header row (genes ! gi)) (Fin 0)"
      using h by (simp add: positive_in_def r_def load_genes_record)
    ultimately show ?thesis unfolding fst_conv snd_conv using cell True by blast
  next
    case False
    then have "ai' \<noteq> ai" using ix ai h by (auto simp: index_sound_def)
    then have "\<not> (\<exists>k < length genes. gi * ?n + ai' = k * ?n + ai \<and>
         js_gt (row_count header row (genes ! k)) (Fin 0))"
      using same_column[OF lt] by blast
    moreover have "positive_in ((snd acc)(a \<mapsto> fst r)) a' (genes ! gi)
        = positive_in (snd acc) a' (genes ! gi)"
      using False by (simp add: positive_in_def)
    ultimately show ?thesis unfolding fst_conv snd_conv using cell old by blast
  qed
qed

lemma load_rows_agrees:
  assumes ix: "index_sound prev"
  shows "agrees prev genes acc \<Longrightarrow>
     distinct (map row_key (filter (row_known prev) rows)) \<Longrightarrow>
     \<forall>r \<in> set rows. \<forall>k. row_key r = Some k \<longrightarrow> asmIndex prev k \<noteq> None \<longrightarrow> snd acc k = None \<Longrightarrow>
     agrees prev genes (load_rows prev header genes rows acc)"
proof (induction rows arbitrary: acc)
  case Nil then show ?case by simp
next
  case (Cons rowStr rows)
  let ?row = "split_on (CHR 0x09) rowStr"
  have key: "row_key rowStr = nth_opt ?row 0" by (simp add: row_key_def)
  show ?case
  proof (cases "row_known prev rowStr")
    case False
    then have skip: "load_rows prev header genes (rowStr # rows) acc
        = load_rows prev header genes rows acc"
      by (auto simp: row_known_def Let_def split: option.splits)
    have "distinct (map row_key (filter (row_known prev) rows))"
      using Cons.prems(2) False by simp
    then show ?thesis unfolding skip using Cons.IH[OF Cons.prems(1)] Cons.prems(3) by simp
  next
    case True
    then obtain a ai where a: "nth_opt ?row 0 = Some a" "asmIndex prev a = Some ai"
      by (auto simp: row_known_def split: option.splits)
    define r where "r = load_genes header ?row (asmCount prev) ai genes 0 (Map.empty, fst acc)"
    define acc1 where "acc1 = (snd r, (snd acc)(a \<mapsto> fst r))"
    have step: "load_rows prev header genes (rowStr # rows) acc
        = load_rows prev header genes rows acc1"
      using a by (simp add: Let_def r_def acc1_def)
    have fresh: "snd acc a = None" using Cons.prems(3) a key by simp
    have ag1: "agrees prev genes acc1"
      unfolding acc1_def r_def by (rule load_row_agrees[OF ix Cons.prems(1) a(2) fresh])
    have d: "distinct (map row_key (filter (row_known prev) rows))"
      and notin: "Some a \<notin> set (map row_key (filter (row_known prev) rows))"
      using Cons.prems(2) True a key by simp_all
    have pre: "\<forall>r \<in> set rows. \<forall>k. row_key r = Some k \<longrightarrow> asmIndex prev k \<noteq> None \<longrightarrow> snd acc1 k = None"
    proof (intro ballI allI impI)
      fix r' k assume r': "r' \<in> set rows" and k: "row_key r' = Some k" "asmIndex prev k \<noteq> None"
      then have "row_known prev r'" by (simp add: row_known_def row_key_def)
      then have "Some k \<in> set (map row_key (filter (row_known prev) rows))"
        using r' k(1) by force
      then have "k \<noteq> a" using notin by auto
      moreover have "snd acc k = None" using Cons.prems(3) r' k by simp
      ultimately show "snd acc1 k = None" by (simp add: acc1_def)
    qed
    show ?thesis unfolding step by (rule Cons.IH[OF ag1 d pre])
  qed
qed

lemma load_parsed_consistent:
  assumes ix: "index_sound st"
    and d: "distinct (map row_key (filter (row_known st) rows))"
  shows "consistent (load_parsed header rows st)"
proof -
  let ?n = "asmCount st"
  define genes where "genes = filter (\<lambda>h. endsWith h ''_count'') header"
  define acc0 :: "8 word list \<times> (string \<rightharpoonup> GeneCountData)"
    where "acc0 = (replicate (length genes * ?n) 0, Map.empty)"
  define res where "res = load_rows st header genes rows acc0"
  have a0: "agrees st genes acc0"
    by (simp add: agrees_def acc0_def cell_one_def nth_opt_def positive_in_def)
  have ag: "agrees st genes res"
    unfolding res_def by (rule load_rows_agrees[OF ix a0 d]) (simp add: acc0_def)
  have m: "matrix (load_parsed header rows st) = Some (fst res)"
    and c: "countMap (load_parsed header rows st) = snd res"
    and g: "geneIndex (load_parsed header rows st) = index_map genes"
    and ai: "asmIndex (load_parsed header rows st) = asmIndex st"
    and n: "asmCount (load_parsed header rows st) = ?n"
    by (simp_all add: load_parsed_def Let_def res_def acc0_def genes_def)
  show ?thesis
    unfolding consistent_def cell_set_def count_positive_def m c g ai n
  proof (intro allI impI)
    fix a x ai gi
    assume h: "asmIndex st a = Some ai \<and> index_map genes x = Some gi"
    then have "gi < length genes" "genes ! gi = x" using index_map_Some by auto
    then show "(case Some (fst res) of None \<Rightarrow> False | Some m \<Rightarrow> cell_one m (gi * ?n + ai))
        \<longleftrightarrow> positive_in (snd res) a x"
      using ag h by (auto simp: agrees_def)
  qed
qed

lemma load_parsed_dimensions: "index_sound st \<Longrightarrow> dimensions_sound (load_parsed header rows st)"
proof -
  have len: "length (fst (load_rows st header genes rows acc)) = length (fst acc)" for genes acc
    by (induction rows arbitrary: acc) (auto simp: Let_def load_genes_length split: option.splits)
  show ?thesis
    unfolding dimensions_sound_def
    using index_map_Some by (auto simp: load_parsed_def Let_def len)
qed


subsection \<open>The synthesis loop\<close>

lemma diff_assemblies_length:
  "length (fst (diff_assemblies prev opts n1 n2 oldN as acc)) = length (fst acc)"
  by (induction as arbitrary: acc) (auto simp: Let_def split: option.splits)

lemma diff_assemblies_other_entry:
  "a' \<notin> set as \<Longrightarrow> snd (diff_assemblies prev opts n1 n2 oldN as acc) a' = snd acc a'"
  by (induction as arbitrary: acc) (auto simp: Let_def split: option.splits)

lemma diff_assemblies_other_gene:
  "g \<noteq> n1 \<Longrightarrow> g \<noteq> n2 \<Longrightarrow>
   positive_in (snd (diff_assemblies prev opts n1 n2 oldN as acc)) a' g = positive_in (snd acc) a' g"
proof (induction as arbitrary: acc)
  case Nil then show ?case by simp
next
  case (Cons a as)
  show ?case
  proof (cases "asmIndex prev a")
    case None
    then show ?thesis using Cons by simp
  next
    case (Some ai)
    then show ?thesis using Cons.prems
      by (simp add: Let_def Cons.IH) (auto simp: positive_in_def split: option.splits)
  qed
qed

lemma diff_assemblies_other_cell:
  "\<forall>a \<in> set as. \<forall>ai. asmIndex prev a = Some ai \<longrightarrow>
      i \<noteq> oldN * asmCount prev + ai \<and> i \<noteq> (oldN + 1) * asmCount prev + ai \<Longrightarrow>
   fst (diff_assemblies prev opts n1 n2 oldN as acc) ! i = fst acc ! i"
proof (induction as arbitrary: acc)
  case Nil then show ?case by simp
next
  case (Cons a as)
  show ?case
  proof (cases "asmIndex prev a")
    case None
    then show ?thesis using Cons by simp
  next
    case (Some ai)
    have "i \<noteq> oldN * asmCount prev + ai" "i \<noteq> (oldN + 1) * asmCount prev + ai"
      using Cons.prems Some by auto
    then show ?thesis using Some Cons by (simp add: Let_def)
  qed
qed

lemma presence_bit_one: "presence_bit p = 1 \<longleftrightarrow> p"
  by (simp add: presence_bit_def)

lemma presence_count_positive: "js_gt (presence_count p) (Fin 0) \<longleftrightarrow> p"
  by (simp add: presence_count_def)

lemma cell_one_nth: "i < length m \<Longrightarrow> cell_one m i \<longleftrightarrow> m ! i = 1"
  by (simp add: cell_one_def nth_opt_def)

lemma diff_assemblies_new_cells:
  assumes "index_sound prev"
    and "length (fst acc) = (oldN + 2) * asmCount prev"
    and "a' \<in> set as" and "asmIndex prev a' = Some ai'"
  shows "(cell_one (fst (diff_assemblies prev opts n1 n2 oldN as acc)) ((oldN + 1) * asmCount prev + ai')
            \<longleftrightarrow> positive_in (snd (diff_assemblies prev opts n1 n2 oldN as acc)) a' n2) \<and>
         (n1 \<noteq> n2 \<longrightarrow>
           (cell_one (fst (diff_assemblies prev opts n1 n2 oldN as acc)) (oldN * asmCount prev + ai')
              \<longleftrightarrow> positive_in (snd (diff_assemblies prev opts n1 n2 oldN as acc)) a' n1))"
  using assms(2,3)
proof (induction as arbitrary: acc)
  case Nil then show ?case by simp
next
  case (Cons a as)
  let ?n = "asmCount prev"
  have lt: "ai' < ?n" using assms(1,4) by (auto simp: index_sound_def)
  show ?case
  proof (cases "a' \<in> set as")
    case True
    show ?thesis
    proof (cases "asmIndex prev a")
      case None
      then show ?thesis using Cons.IH[OF Cons.prems(1) True] by simp
    next
      case (Some ai)
      then show ?thesis using Cons.IH[OF _ True] Cons.prems(1) by (simp add: Let_def)
    qed
  next
    case False
    then have eq: "a = a'" using Cons.prems(2) by simp
    define cm where "cm = (case snd acc a' of None \<Rightarrow> Map.empty | Some cm \<Rightarrow> cm)"
    define c1 where "c1 = or_zero (cm (gene1 opts))"
    define c2 where "c2 = or_zero (cm (gene2 opts))"
    define p1 where "p1 = (if useCounts opts then js_gt c1 c2 else js_gt c1 (Fin 0) \<and> c2 = Fin 0)"
    define p2 where "p2 = (if useCounts opts then js_gt c2 c1 else js_gt c2 (Fin 0) \<and> c1 = Fin 0)"
    define i1 where "i1 = oldN * ?n + ai'"
    define i2 where "i2 = (oldN + 1) * ?n + ai'"
    define m2 where "m2 = (fst acc)[i1 := presence_bit p1, i2 := presence_bit p2]"
    define cm' where "cm' = cm(n1 \<mapsto> presence_count p1, n2 \<mapsto> presence_count p2)"
    define acc1 where "acc1 = (m2, (snd acc)(a' \<mapsto> cm'))"
    let ?res = "diff_assemblies prev opts n1 n2 oldN as acc1"
    have step: "diff_assemblies prev opts n1 n2 oldN (a # as) acc = ?res"
      using assms(4) eq
      by (simp add: Let_def acc1_def m2_def cm'_def i1_def i2_def p1_def p2_def c1_def c2_def cm_def)
    have len: "length m2 = (oldN + 2) * ?n" using Cons.prems(1) by (simp add: m2_def)
    have b: "i1 < length m2" "i2 < length m2" "i1 \<noteq> i2"
      using lt len by (simp_all add: i1_def i2_def)
    have other: "\<forall>b \<in> set as. \<forall>bi. asmIndex prev b = Some bi \<longrightarrow>
        i \<noteq> oldN * ?n + bi \<and> i \<noteq> (oldN + 1) * ?n + bi" if "i = i1 \<or> i = i2" for i
    proof (intro ballI allI impI)
      fix b bi assume bs: "b \<in> set as" and bi: "asmIndex prev b = Some bi"
      have "b \<noteq> a'" using bs False by auto
      then have ne: "bi \<noteq> ai'" using assms(1,4) bi by (auto simp: index_sound_def)
      have bl: "bi < ?n" using assms(1) bi by (auto simp: index_sound_def)
      show "i \<noteq> oldN * ?n + bi \<and> i \<noteq> (oldN + 1) * ?n + bi"
        using that ne bl lt by (auto simp: i1_def i2_def)
    qed
    have r1: "fst ?res ! i1 = presence_bit p1"
      using diff_assemblies_other_cell[OF other, of i1 opts n1 n2 acc1] b
      by (simp add: acc1_def m2_def)
    have r2: "fst ?res ! i2 = presence_bit p2"
      using diff_assemblies_other_cell[OF other, of i2 opts n1 n2 acc1] b
      by (simp add: acc1_def m2_def)
    have rl: "length (fst ?res) = length m2"
      by (simp add: diff_assemblies_length acc1_def)
    have e: "snd ?res a' = Some cm'"
      using diff_assemblies_other_entry[OF False, of prev opts n1 n2 oldN acc1]
      by (simp add: acc1_def)
    have q2: "positive_in (snd ?res) a' n2 \<longleftrightarrow> p2"
      by (simp add: positive_in_def e cm'_def presence_count_positive)
    have q1: "n1 \<noteq> n2 \<Longrightarrow> positive_in (snd ?res) a' n1 \<longleftrightarrow> p1"
      by (simp add: positive_in_def e cm'_def presence_count_positive)
    have s2: "cell_one (fst ?res) i2 \<longleftrightarrow> p2"
      using b rl by (simp add: cell_one_nth r2 presence_bit_one)
    have s1: "cell_one (fst ?res) i1 \<longleftrightarrow> p1"
      using b rl by (simp add: cell_one_nth r1 presence_bit_one)
    show ?thesis unfolding step using q1 q2 s1 s2 by (simp add: i1_def i2_def)
  qed
qed

lemma diff_assemblies_inactive_cell:
  assumes "index_sound prev" and "a' \<notin> set as" and "asmIndex prev a' = Some ai'"
    and "i = gi * asmCount prev + ai'"
  shows "fst (diff_assemblies prev opts n1 n2 oldN as acc) ! i = fst acc ! i"
proof (rule diff_assemblies_other_cell, intro ballI allI impI)
  fix b bi assume bs: "b \<in> set as" and bi: "asmIndex prev b = Some bi"
  let ?n = "asmCount prev"
  have "b \<noteq> a'" using bs assms(2) by auto
  then have ne: "bi \<noteq> ai'" using assms(1,3) bi by (auto simp: index_sound_def)
  have bl: "bi < ?n" "ai' < ?n" using assms(1,3) bi by (auto simp: index_sound_def)
  have neq: "gi * ?n + ai' \<noteq> k * ?n + bi" for k
  proof
    assume "gi * ?n + ai' = k * ?n + bi"
    then have "(gi * ?n + ai') mod ?n = (k * ?n + bi) mod ?n" by simp
    then show False using bl ne by simp
  qed
  show "i \<noteq> oldN * ?n + bi \<and> i \<noteq> (oldN + 1) * ?n + bi"
    unfolding assms(4) using neq[of oldN] neq[of "oldN + 1"] by (intro conjI)
qed

lemma diff_assemblies_old_cell:
  assumes "index_sound prev" and "gi < oldN" and "ai' < asmCount prev"
  shows "fst (diff_assemblies prev opts n1 n2 oldN as acc) ! (gi * asmCount prev + ai')
           = fst acc ! (gi * asmCount prev + ai')"
proof (rule diff_assemblies_other_cell, intro ballI allI impI)
  fix b bi assume "b \<in> set as" and bi: "asmIndex prev b = Some bi"
  let ?n = "asmCount prev"
  have "Suc gi * ?n \<le> oldN * ?n" using assms(2) by (simp add: Suc_leI mult_le_mono1 del: mult_Suc)
  then have "gi * ?n + ai' < oldN * ?n" using assms(3) by simp
  then show "gi * ?n + ai' \<noteq> oldN * ?n + bi \<and> gi * ?n + ai' \<noteq> (oldN + 1) * ?n + bi"
    by simp
qed

lemma synthesis_keeps_consistent:
  assumes valid: "gene1 opts \<noteq> [] \<and> gene2 opts \<noteq> [] \<and> gene1 opts \<noteq> gene2 opts"
    and ix: "index_sound st" and dm: "dimensions_sound st" and cs: "consistent st"
    and inactive: "\<forall>a. a \<notin> set (assemblies st) \<longrightarrow>
        \<not> count_positive st a (label (useCounts opts) (gene1 opts) (gene2 opts)) \<and>
        \<not> count_positive st a (label (useCounts opts) (gene2 opts) (gene1 opts))"
  shows "\<exists>st'. addDifferenceVisualization opts st = Inr st' \<and>
           consistent st' \<and> index_sound st' \<and> dimensions_sound st'"
proof -
  let ?n = "asmCount st"
  define oldN where "oldN = length (geneNames st)"
  define n1 where "n1 = label (useCounts opts) (gene1 opts) (gene2 opts)"
  define n2 where "n2 = label (useCounts opts) (gene2 opts) (gene1 opts)"
  define old where "old = (case matrix st of None \<Rightarrow> [] | Some m \<Rightarrow> m)"
  define mat0 where "mat0 = old @ replicate ((oldN + 2) * ?n - length old) 0"
  define res where "res = diff_assemblies st opts n1 n2 oldN (assemblies st) (mat0, countMap st)"
  define st' where "st' = st\<lparr>geneNames := geneNames st @ [n1, n2],
       geneIndex := (geneIndex st)(n1 \<mapsto> oldN, n2 \<mapsto> oldN + 1),
       matrix := Some (fst res), countMap := snd res,
       activeGenes := activeGenes st @ [n1, n2], isLoading := False, loadingMessage := []\<rparr>"
  have lo: "length old = 0 \<or> length old = oldN * ?n"
    using dm by (auto simp: dimensions_sound_def old_def oldN_def split: option.splits)
  then have fits: "length old \<le> (oldN + 2) * ?n" by auto
  then have l0: "length mat0 = (oldN + 2) * ?n" by (simp add: mat0_def)
  have run: "addDifferenceVisualization opts st = Inr st'"
    using valid fits
    by (simp add: addDifferenceVisualization_def Let_def st'_def res_def mat0_def old_def
        n1_def n2_def oldN_def)
  have lr: "length (fst res) = (oldN + 2) * ?n"
    by (simp add: res_def diff_assemblies_length l0)
  have zero: "mat0 ! i = 0" if "oldN * ?n \<le> i" "i < (oldN + 2) * ?n" for i
    using that lo by (auto simp: mat0_def nth_append)
  have keep: "cell_one mat0 (gi * ?n + ai) \<longleftrightarrow> cell_set st gi ai"
    if "gi < oldN" "ai < ?n" for gi ai
  proof -
    have "Suc gi * ?n \<le> oldN * ?n" using that(1) by (simp add: Suc_leI mult_le_mono1 del: mult_Suc)
    then have lt: "gi * ?n + ai < oldN * ?n" using that(2) by simp
    show ?thesis
    proof (cases "matrix st")
      case None
      then have "mat0 = replicate ((oldN + 2) * ?n) 0" by (simp add: mat0_def old_def)
      then have "mat0 ! (gi * ?n + ai) = 0" using lt by simp
      moreover have "gi * ?n + ai < length mat0" using lt l0 by simp
      ultimately show ?thesis using None by (simp add: cell_one_nth cell_set_def)
    next
      case (Some m)
      then have m: "old = m" "length m = oldN * ?n"
        using dm by (auto simp: old_def dimensions_sound_def oldN_def)
      then have "mat0 ! (gi * ?n + ai) = m ! (gi * ?n + ai)" using lt by (simp add: mat0_def nth_append)
      moreover have "gi * ?n + ai < length mat0" "gi * ?n + ai < length m" using lt l0 m by simp_all
      ultimately show ?thesis using Some by (simp add: cell_one_nth cell_set_def)
    qed
  qed
  have con: "consistent st'"
    unfolding consistent_def
  proof (intro allI impI)
    fix a g ai gi
    assume h: "asmIndex st' a = Some ai \<and> geneIndex st' g = Some gi"
    then have ai: "asmIndex st a = Some ai" by (simp add: st'_def)
    then have al: "ai < ?n" using ix by (auto simp: index_sound_def)
    have cs': "cell_set st' k ai \<longleftrightarrow> cell_one (fst res) (k * ?n + ai)" for k
      by (simp add: cell_set_def st'_def)
    have cp': "count_positive st' a x \<longleftrightarrow> positive_in (snd res) a x" for x
      by (simp add: count_positive_def st'_def)
    have l0': "length (fst (mat0, countMap st)) = (oldN + 2) * ?n" using l0 by simp
    consider (new2) "g = n2" | (new1) "g = n1" "n1 \<noteq> n2" | (old) "g \<noteq> n1" "g \<noteq> n2" by blast
    then show "cell_set st' gi ai \<longleftrightarrow> count_positive st' a g"
    proof cases
      case new2
      then have gi: "gi = oldN + 1" using h by (simp add: st'_def)
      show ?thesis
      proof (cases "a \<in> set (assemblies st)")
        case True
        have "cell_one (fst res) ((oldN + 1) * ?n + ai) \<longleftrightarrow> positive_in (snd res) a n2"
          unfolding res_def
          using diff_assemblies_new_cells[OF ix l0' True ai, of opts n1 n2] by blast
        then show ?thesis unfolding gi new2 cs' cp' .
      next
        case False
        have "fst res ! ((oldN + 1) * ?n + ai) = mat0 ! ((oldN + 1) * ?n + ai)"
          unfolding res_def
          using diff_assemblies_inactive_cell[OF ix False ai, of _ "oldN + 1" opts n1 n2 oldN "(mat0, countMap st)"]
          by simp
        also have "\<dots> = 0" using al by (intro zero) simp_all
        finally have "\<not> cell_one (fst res) ((oldN + 1) * ?n + ai)"
          using lr al by (simp add: cell_one_nth)
        moreover have "positive_in (snd res) a n2 = positive_in (countMap st) a n2"
          unfolding res_def positive_in_def
          using diff_assemblies_other_entry[OF False, of st opts n1 n2 oldN "(mat0, countMap st)"]
          by simp
        moreover have "\<not> positive_in (countMap st) a n2"
          using inactive False by (simp add: count_positive_def n2_def)
        ultimately show ?thesis unfolding gi new2 cs' cp' by simp
      qed
    next
      case new1
      then have gi: "gi = oldN" using h by (simp add: st'_def)
      show ?thesis
      proof (cases "a \<in> set (assemblies st)")
        case True
        have "cell_one (fst res) (oldN * ?n + ai) \<longleftrightarrow> positive_in (snd res) a n1"
          unfolding res_def
          using diff_assemblies_new_cells[OF ix l0' True ai, of opts n1 n2] new1(2) by blast
        then show ?thesis unfolding gi new1(1) cs' cp' .
      next
        case False
        have "fst res ! (oldN * ?n + ai) = mat0 ! (oldN * ?n + ai)"
          unfolding res_def
          using diff_assemblies_inactive_cell[OF ix False ai, of _ oldN opts n1 n2 oldN "(mat0, countMap st)"]
          by simp
        also have "\<dots> = 0" using al by (intro zero) simp_all
        finally have "\<not> cell_one (fst res) (oldN * ?n + ai)"
          using lr al by (simp add: cell_one_nth)
        moreover have "positive_in (snd res) a n1 = positive_in (countMap st) a n1"
          unfolding res_def positive_in_def
          using diff_assemblies_other_entry[OF False, of st opts n1 n2 oldN "(mat0, countMap st)"]
          by simp
        moreover have "\<not> positive_in (countMap st) a n1"
          using inactive False by (simp add: count_positive_def n1_def)
        ultimately show ?thesis unfolding gi new1(1) cs' cp' by simp
      qed
    next
      case old
      then have g: "geneIndex st g = Some gi" using h by (simp add: st'_def)
      then have gl: "gi < oldN" using dm by (auto simp: dimensions_sound_def oldN_def)
      have "Suc gi * ?n \<le> oldN * ?n" using gl by (simp add: Suc_leI mult_le_mono1 del: mult_Suc)
      then have lt: "gi * ?n + ai < oldN * ?n" using al by simp
      have "fst res ! (gi * ?n + ai) = mat0 ! (gi * ?n + ai)"
        unfolding res_def using diff_assemblies_old_cell[OF ix gl al, of opts n1 n2 "assemblies st" "(mat0, countMap st)"] by simp
      then have "cell_one (fst res) (gi * ?n + ai) \<longleftrightarrow> cell_one mat0 (gi * ?n + ai)"
        using lt lr l0 by (simp add: cell_one_nth)
      also have "\<dots> \<longleftrightarrow> cell_set st gi ai" by (rule keep[OF gl al])
      also have "\<dots> \<longleftrightarrow> count_positive st a g" using cs ai g by (auto simp: consistent_def)
      also have "\<dots> \<longleftrightarrow> positive_in (snd res) a g"
        unfolding res_def count_positive_def
        using diff_assemblies_other_gene[OF old, of st opts oldN "assemblies st" "(mat0, countMap st)" a]
        by simp
      finally show ?thesis unfolding cs' cp' .
    qed
  qed
  have ix': "index_sound st'" using ix by (simp add: index_sound_def st'_def)
  have "gi < length (geneNames st) + 2" if "geneIndex st' g = Some gi" for g gi
  proof (cases "g = n1 \<or> g = n2")
    case True
    then show ?thesis using that by (auto simp: st'_def oldN_def split: if_splits)
  next
    case False
    then have "geneIndex st g = Some gi" using that by (simp add: st'_def)
    then have "gi < length (geneNames st)" using dm by (auto simp: dimensions_sound_def)
    then show ?thesis by simp
  qed
  then have dm': "dimensions_sound st'"
    using lr by (simp add: dimensions_sound_def st'_def oldN_def)
  show ?thesis using run con ix' dm' by blast
qed


subsection \<open>Load, synthesis and toggle\<close>

lemma from_entries_other:
  "a \<notin> set (map fst es) \<Longrightarrow> from_entries es m a = m a"
  by (induction es arbitrary: m) auto

lemma index_map_None: "a \<notin> set names \<Longrightarrow> index_map names a = None"
  using from_entries_other[of a "zip names [0..<length names]" Map.empty]
  by (simp add: index_map_def)

lemma load_parsed_index_sound: "index_sound st \<Longrightarrow> index_sound (load_parsed header rows st)"
  by (simp add: index_sound_def load_parsed_def Let_def)

lemma load_parsed_unknown_not_positive:
  "asmIndex st a = None \<Longrightarrow> \<not> count_positive (load_parsed header rows st) a g"
  by (simp add: count_positive_def positive_in_def load_parsed_def Let_def load_rows_unknown_key)

lemma toggle_inverts:
  assumes cs: "consistent st" and m: "matrix st = Some m"
    and bits: "\<forall>v \<in> set m. v = 0 \<or> v = 1"
    and a: "asmIndex st a = Some ai" and g: "geneIndex st g = Some gi"
    and inr: "gi * asmCount st + ai < length m"
  shows "cell_set (togglePresence st) gi ai \<longleftrightarrow> \<not> count_positive st a g"
proof -
  let ?i = "gi * asmCount st + ai"
  have v: "m ! ?i = 0 \<or> m ! ?i = 1" using bits inr by simp
  have "cell_set (togglePresence st) gi ai \<longleftrightarrow> flip_cell (m ! ?i) = 1"
    using m inr by (simp add: cell_set_def togglePresence_def cell_one_nth)
  also have "\<dots> \<longleftrightarrow> m ! ?i \<noteq> 1" using v by (auto simp: flip_cell_def)
  also have "\<dots> \<longleftrightarrow> \<not> cell_set st gi ai"
    using m inr by (simp add: cell_set_def cell_one_nth)
  also have "\<dots> \<longleftrightarrow> \<not> count_positive st a g"
    using cs a g by (auto simp: consistent_def)
  finally show ?thesis .
qed

text \<open>
  Claim C2, as amended. The agreement "cell = 1 iff count > 0" is established by the
  table load when the assembly index is sound and no two data rows with a known key share
  their key, and it is kept by a difference-gene synthesis on a state with sound index and
  dimensions in which no assembly outside the active list already has a positive count
  under one of the two new names. The presence toggle does not keep it: on a consistent
  0/1 matrix it leaves every in-range cell at 1 exactly when the count is not positive.
\<close>

theorem matrix_count_agreement:
  "(index_sound st \<and> distinct (map row_key (filter (row_known st) (tsv_rows tsvText))) \<longrightarrow>
      consistent (loadTSVData tsvText st)) \<and>
   (gene1 opts \<noteq> [] \<and> gene2 opts \<noteq> [] \<and> gene1 opts \<noteq> gene2 opts \<and>
    index_sound st \<and> dimensions_sound st \<and> consistent st \<and>
    (\<forall>a. a \<notin> set (assemblies st) \<longrightarrow>
       \<not> count_positive st a (label (useCounts opts) (gene1 opts) (gene2 opts)) \<and>
       \<not> count_positive st a (label (useCounts opts) (gene2 opts) (gene1 opts))) \<longrightarrow>
      (\<exists>st'. addDifferenceVisualization opts st = Inr st' \<and> consistent st')) \<and>
   (consistent st \<and> (\<forall>m. matrix st = Some m \<longrightarrow> (\<forall>v \<in> set m. v = 0 \<or> v = 1)) \<longrightarrow>
      (\<forall>a g ai gi m. matrix st = Some m \<and> asmIndex st a = Some ai \<and> geneIndex st g = Some gi \<and>
         gi * asmCount st + ai < length m \<longrightarrow>
         (cell_set (togglePresence st) gi ai \<longleftrightarrow> \<not> count_positive st a g)))"
proof (intro conjI impI allI)
  assume "index_sound st \<and> distinct (map row_key (filter (row_known st) (tsv_rows tsvText)))"
  then show "consistent (loadTSVData tsvText st)"
    unfolding loadTSVData_def using load_parsed_consistent by blast
next
  assume h: "gene1 opts \<noteq> [] \<and> gene2 opts \<noteq> [] \<and> gene1 opts \<noteq> gene2 opts \<and>
    index_sound st \<and> dimensions_sound st \<and> consistent st \<and>
    (\<forall>a. a \<notin> set (assemblies st) \<longrightarrow>
       \<not> count_positive st a (label (useCounts opts) (gene1 opts) (gene2 opts)) \<and>
       \<not> count_positive st a (label (useCounts opts) (gene2 opts) (gene1 opts)))"
  have "\<exists>st'. addDifferenceVisualization opts st = Inr st' \<and>
           consistent st' \<and> index_sound st' \<and> dimensions_sound st'"
    by (rule synthesis_keeps_consistent) (use h in blast)+
  then show "\<exists>st'. addDifferenceVisualization opts st = Inr st' \<and> consistent st'" by blast
next
  fix a g ai gi m
  assume h: "consistent st \<and> (\<forall>m. matrix st = Some m \<longrightarrow> (\<forall>v \<in> set m. v = 0 \<or> v = 1))"
    and k: "matrix st = Some m \<and> asmIndex st a = Some ai \<and> geneIndex st g = Some gi \<and>
         gi * asmCount st + ai < length m"
  show "cell_set (togglePresence st) gi ai \<longleftrightarrow> \<not> count_positive st a g"
    by (rule toggle_inverts[of st m a ai g gi]) (use h k in blast)+
qed

text \<open>
  The claim as stated fails after a toggle: in the state loaded from the counted table,
  assembly X has count 2 for \<^verbatim>\<open>gA_count\<close>, and after the toggle its cell is 0.
\<close>

theorem toggle_breaks_agreement_counterexample:
  "\<not> consistent (togglePresence loaded_state)"
proof
  assume "consistent (togglePresence loaded_state)"
  moreover have "asmIndex (togglePresence loaded_state) ''X'' = Some 0" by code_simp
  moreover have "geneIndex (togglePresence loaded_state) ''gA_count'' = Some 0" by code_simp
  ultimately have "cell_set (togglePresence loaded_state) 0 0
      \<longleftrightarrow> count_positive (togglePresence loaded_state) ''X'' ''gA_count''"
    unfolding consistent_def by blast
  moreover have "\<not> cell_set (togglePresence loaded_state) 0 0" by code_simp
  moreover have "count_positive (togglePresence loaded_state) ''X'' ''gA_count''" by code_simp
  ultimately show False by simp
qed

theorem matrix_count_agreement_witness:
  "(index_sound xy_state \<and>
    distinct (map row_key (filter (row_known xy_state) (tsv_rows tsv_count)))) \<and>
   consistent loaded_state \<and>
   (gene1 ab_request \<noteq> [] \<and> gene2 ab_request \<noteq> [] \<and> gene1 ab_request \<noteq> gene2 ab_request \<and>
    index_sound loaded_state \<and> dimensions_sound loaded_state) \<and>
   (\<exists>st'. addDifferenceVisualization ab_request loaded_state = Inr st' \<and> consistent st') \<and>
   matrix loaded_state = Some [1, 0, 0, 1] \<and>
   (cell_set (togglePresence loaded_state) 0 0 \<longleftrightarrow> \<not> count_positive loaded_state ''X'' ''gA_count'')"
proof -
  have ix: "index_sound xy_state" unfolding xy_state_def by (rule loadGTDBData_index_sound)
  have d: "distinct (map row_key (filter (row_known xy_state) (tsv_rows tsv_count)))" by code_simp
  have cs: "consistent loaded_state"
    using matrix_count_agreement[of xy_state tsv_count] ix d unfolding loaded_state_def by blast
  have v: "gene1 ab_request \<noteq> [] \<and> gene2 ab_request \<noteq> [] \<and> gene1 ab_request \<noteq> gene2 ab_request"
    by code_simp
  have ix': "index_sound loaded_state"
    unfolding loaded_state_def loadTSVData_def by (rule load_parsed_index_sound[OF ix])
  have dm: "dimensions_sound loaded_state"
    unfolding loaded_state_def loadTSVData_def by (rule load_parsed_dimensions[OF ix])
  have asm: "assemblies loaded_state = map assembly xy_records"
    by (simp add: loaded_state_def loadTSVData_def load_parsed_def Let_def xy_state_def
        loadGTDBData_def)
  have inactive: "\<forall>a. a \<notin> set (assemblies loaded_state) \<longrightarrow>
       \<not> count_positive loaded_state a (label (useCounts ab_request) (gene1 ab_request) (gene2 ab_request)) \<and>
       \<not> count_positive loaded_state a (label (useCounts ab_request) (gene2 ab_request) (gene1 ab_request))"
  proof (intro allI impI)
    fix a assume "a \<notin> set (assemblies loaded_state)"
    then have "asmIndex xy_state a = None"
      unfolding asm by (simp add: xy_state_def loadGTDBData_def index_map_None)
    then show "\<not> count_positive loaded_state a (label (useCounts ab_request) (gene1 ab_request) (gene2 ab_request)) \<and>
       \<not> count_positive loaded_state a (label (useCounts ab_request) (gene2 ab_request) (gene1 ab_request))"
      unfolding loaded_state_def loadTSVData_def
      using load_parsed_unknown_not_positive by blast
  qed
  have syn: "\<exists>st'. addDifferenceVisualization ab_request loaded_state = Inr st' \<and> consistent st'"
    using matrix_count_agreement[of loaded_state tsv_count ab_request] v ix' dm cs inactive
    by blast
  have m: "matrix loaded_state = Some [1, 0, 0, 1]" by code_simp
  have bits: "\<forall>m. matrix loaded_state = Some m \<longrightarrow> (\<forall>v \<in> set m. v = 0 \<or> v = 1)"
    unfolding m by simp
  have k: "matrix loaded_state = Some [1, 0, 0, 1] \<and> asmIndex loaded_state ''X'' = Some 0 \<and>
     geneIndex loaded_state ''gA_count'' = Some 0 \<and>
     0 * asmCount loaded_state + 0 < length [1, 0, 0, 1 :: 8 word]"
    by code_simp
  have tg: "cell_set (togglePresence loaded_state) 0 0 \<longleftrightarrow> \<not> count_positive loaded_state ''X'' ''gA_count''"
    using matrix_count_agreement[of loaded_state tsv_count ab_request] cs bits k by blast
  show ?thesis using ix d cs v ix' dm syn m tg by blast
qed

section \<open>Counts stored by the loaders\<close>







text \<open>
  \<^verbatim>\<open>DataProcessor.processTsvData\<close> on a field that is not numeric: the hook stores 0
  for the count field \<^verbatim>\<open>abc\<close>, while \<^verbatim>\<open>processTsvData\<close> stores the \<^verbatim>\<open>NaN\<close> that
  \<^verbatim>\<open>parseInt\<close> returns.
\<close>

lemma malformed_count_in_processor:
  "stored_count (loadTSVData tsv_malformed xy_state) ''X'' ''gA_count'' = Some (Fin 0) \<and>
   processor_stored_count (processTsvData xy_records tsv_malformed) ''X'' ''gA_count'' = Some NaN"
  by code_simp


end
